theory Spec2Isabelle
  imports Main "HOL-Library.Word"
begin

unbundle bit_operations_syntax

section \<open>Data model of the FSG search (fsg\_search.c)\<close>

text \<open>
  The int32 scores, frames and indices of the source are modelled on \<^typ>\<open>int\<close>. Signed
  overflow is undefined in C, so the model describes the executions in which no sum of
  scores leaves the int32 range. Every abort of the source (a failed \<open>assert\<close>,
  \<open>E_FATAL\<close>, a dereferenced NULL pointer, an index outside an array) is a value of
  \<open>fsg_error\<close>.
\<close>

datatype fsg_error = AssertFailed | NullDeref | OutOfBounds | Fatal

definition INT_MIN :: int where
  "INT_MIN = - (2 ^ 31)"

text \<open>
  Modelled from the spec: \<open>WORST_SCORE\<close>, a macro of hmm.h, is a score well below any
  score that a state can reach. The number taken here is \<open>(int32)0xE0000000\<close>; no
  statement below depends on it.
\<close>

definition WORST_SCORE :: int where
  "WORST_SCORE = - (2 ^ 29)"

text \<open>An FSG transition (\<open>fsg_link_t\<close>); a null transition has word id \<open>-1\<close>.\<close>

record fsg_link =
  fsg_link_from_state :: int
  fsg_link_to_state :: int
  fsg_link_logs2prob :: int
  fsg_link_wid :: int

text \<open>
  \<open>fsg_pnode_ctxt_t\<close>: a bit vector over the context-independent phones, kept in an
  array \<open>bv\<close> of 32-bit words.
\<close>

record fsg_pnode_ctxt =
  bv :: "32 word list"

text \<open>A word exit in the history table (\<open>fsg_hist_entry_t\<close>).\<close>

record fsg_hist_entry =
  fsg_hist_entry_fsglink :: "fsg_link option"
  fsg_hist_entry_frame :: int
  fsg_hist_entry_score :: int
  fsg_hist_entry_pred :: int
  fsg_hist_entry_lc :: int
  fsg_hist_entry_rc :: fsg_pnode_ctxt

text \<open>
  The grammar (\<open>fsg_model_t\<close>), a read-only collaborator. \<open>fsg_addr\<close> is the address
  of the object: the source compares grammars as pointers. The null transitions, the
  filler test and the word strings are functions of the grammar module.
\<close>

record fsg_model =
  fsg_addr :: nat
  fsg_model_n_state :: int
  fsg_model_start_state :: int
  fsg_model_final_state :: int
  fsg_model_null_trans :: "int \<Rightarrow> int \<Rightarrow> fsg_link option"
  fsg_model_is_filler :: "int \<Rightarrow> bool"
  fsg_model_word_str :: "int \<Rightarrow> string"

text \<open>
  Modelled from the spec: the history table (the module fsg\_history.c, which
  fsg\_search.c calls and does not contain) is an append-only indexed sequence of
  entries with a commit, bound to the grammar it records exits of. \<open>entries\<close> holds the
  permanent entries: \<open>fsg_history_n_entries\<close> counts them and
  \<open>fsg_history_entry_get\<close> reads one by its index. An entry added by
  \<open>fsg_history_entry_add\<close> is tentative: it joins \<open>tentative\<close> and has no index
  until the next \<open>fsg_history_end_frame\<close>, which aggregates the tentative entries and
  appends what is left of them to the permanent ones. What the aggregation keeps is the
  choice of the history module: it is the field \<open>aggregate\<close>, and nothing below fixes
  it. An entry of a negative frame is permanent at once: \<open>fsg_search_start\<close> adds the
  dummy entry of frame \<open>-1\<close> and reads it at index 0 with no commit in between.
  \<open>fsg_history_reset\<close> drains the table and \<open>fsg_history_set_fsg\<close> rebinds the
  grammar.
\<close>

record fsg_history =
  entries :: "fsg_hist_entry list"
  tentative :: "fsg_hist_entry list"
  aggregate :: "fsg_hist_entry list \<Rightarrow> fsg_hist_entry list"
  history_fsg :: "fsg_model option"

definition fsg_history_n_entries :: "fsg_history \<Rightarrow> int" where
  "fsg_history_n_entries h = int (length (entries h))"

definition fsg_history_entry_get :: "fsg_history \<Rightarrow> int \<Rightarrow> fsg_hist_entry" where
  "fsg_history_entry_get h i = entries h ! nat i"

definition fsg_history_entry_add ::
  "fsg_history \<Rightarrow> fsg_link option \<Rightarrow> int \<Rightarrow> int \<Rightarrow> int \<Rightarrow> int \<Rightarrow> fsg_pnode_ctxt \<Rightarrow> fsg_history"
where
  "fsg_history_entry_add h l frm scr prd c r =
     (let e = \<lparr>fsg_hist_entry_fsglink = l, fsg_hist_entry_frame = frm,
                fsg_hist_entry_score = scr, fsg_hist_entry_pred = prd,
                fsg_hist_entry_lc = c, fsg_hist_entry_rc = r\<rparr>
      in if frm < 0 then h\<lparr>entries := entries h @ [e]\<rparr>
         else h\<lparr>tentative := tentative h @ [e]\<rparr>)"

definition fsg_history_end_frame :: "fsg_history \<Rightarrow> fsg_history" where
  "fsg_history_end_frame h =
     h\<lparr>entries := entries h @ aggregate h (tentative h), tentative := []\<rparr>"

definition fsg_history_reset :: "fsg_history \<Rightarrow> fsg_history" where
  "fsg_history_reset h = h\<lparr>entries := [], tentative := []\<rparr>"

definition fsg_history_set_fsg :: "fsg_history \<Rightarrow> fsg_model option \<Rightarrow> fsg_history" where
  "fsg_history_set_fsg h g = h\<lparr>history_fsg := g\<rparr>"

text \<open>
  The IEEE-754 binary32 value of \<open>beam_factor\<close>: \<open>Float32 m e\<close> is the number
  \<open>m * 2 ^ e\<close>.
\<close>

datatype float32 = Float32 (mant: int) (expo: int)

text \<open>
  One HMM instance (\<open>hmm_t\<close> of hmm.h): the entry and exit scores and histories, the
  best state score, and the last frame at which the HMM is scheduled.
\<close>

record hmm =
  hmm_in_score :: int
  hmm_in_history :: int
  hmm_out_score :: int
  hmm_out_history :: int
  hmm_bestscore :: int
  hmm_frame :: int

text \<open>
  A lextree node (\<open>fsg_pnode_t\<close>). The children of a node are the NULL-terminated
  \<open>sibling\<close> chain that starts at \<open>fsg_pnode_succ\<close>; the lextree module builds the
  chain and the search never changes it, so it is kept as the list of the addresses of
  its nodes.
\<close>

record fsg_pnode =
  hmm :: hmm
  logs2prob :: int
  ci_ext :: int
  ctxt :: fsg_pnode_ctxt
  fsg_pnode_leaf :: bool
  fsg_pnode_fsglink :: "fsg_link option"
  fsg_pnode_succ :: "nat list"

text \<open>
  The lextree (\<open>fsg_lextree_t\<close>): for every FSG state the \<open>sibling\<close> chain of its
  root nodes, and the number of nodes.
\<close>

record fsg_lextree =
  fsg_lextree_root :: "int \<Rightarrow> nat list"
  fsg_lextree_n_pnode :: int

text \<open>The collaborators, as far as the search reads them.\<close>

record acmod =
  n_feat_frame :: int
  compallsen :: bool
  n_senone_active :: int
  sil_ciphone_id :: int

record dict =
  dict_to_id :: "string \<Rightarrow> int"
  dict_pronlen :: "int \<Rightarrow> int"

text \<open>
  A word lattice (\<open>ps_lattice_t\<close>): \<open>lat_addr\<close> is the address of the object and
  \<open>lat_build\<close> stands for everything the lattice holds besides its frame count.
\<close>

record ps_lattice =
  lat_addr :: nat
  n_frames :: int
  lat_build :: nat

text \<open>
  The decoder state (\<open>fsg_search_t\<close> with its base \<open>ps_search_t\<close>). \<open>pnodes\<close> is the
  store that holds the lextree nodes, by address; the active lists hold addresses.
  \<open>maxhmmpf\<close> is the value of the configuration option of that name, \<open>ctxt_bvsz\<close>
  the compile-time length \<open>FSG_PNODE_CTXT_BVSZ\<close> of the \<open>bv\<close> arrays, and
  \<open>hmmctx\<close> what the HMM context, with the senone scores of the frame installed, makes
  of one HMM in a Viterbi step.
\<close>

record fsg_search =
  acmod :: acmod
  dict :: dict
  maxhmmpf :: int
  ctxt_bvsz :: nat
  hmmctx :: "hmm \<Rightarrow> hmm"
  dag :: "ps_lattice option"
  fsgs :: "string \<Rightarrow> fsg_model option"
  fsg :: "fsg_model option"
  lextree :: "fsg_lextree option"
  pnodes :: "nat \<Rightarrow> fsg_pnode"
  history :: fsg_history
  pnode_active :: "nat list"
  pnode_active_next :: "nat list"
  beam_orig :: int
  pbeam_orig :: int
  wbeam_orig :: int
  beam_factor :: float32
  beam :: int
  pbeam :: int
  wbeam :: int
  frame :: int
  final :: bool
  bestpath :: bool
  bestscore :: int
  bpidx_start :: int
  n_hmm_eval :: int
  n_sen_eval :: int

section \<open>Back-pointer search: fsg\_search\_find\_exit\<close>

text \<open>
  The first loop of \<open>fsg_search_find_exit\<close>:
  \<^verbatim>\<open>while (bpidx > 0) { hist_entry = get(bpidx); if (frame(hist_entry) <= frame_idx) { ...; break; } }\<close>
  Its body never changes \<open>bpidx\<close>. The loop may therefore not return, so it is a partial
  function: \<open>None\<close> is the run that never leaves the loop. The result is the pair of
  \<open>bpidx\<close> and \<open>frm = last_frm\<close> at the exit of the loop.
\<close>

partial_function (option) find_exit_scan ::
  "fsg_history \<Rightarrow> int \<Rightarrow> int \<Rightarrow> int \<Rightarrow> (int \<times> int) option"
where
  "find_exit_scan h frame_idx frm bpidx =
     (if bpidx > 0 then
        (if fsg_hist_entry_frame (fsg_history_entry_get h bpidx) \<le> frame_idx
         then Some (bpidx, fsg_hist_entry_frame (fsg_history_entry_get h bpidx))
         else find_exit_scan h frame_idx frm bpidx)
      else Some (bpidx, frm))"

text \<open>
  The second loop, \<open>while (frm == last_frm)\<close>, carries \<open>frm\<close>, \<open>hist_entry\<close>,
  \<open>bpidx\<close>, \<open>bestscore\<close> and \<open>besthist\<close>. With \<open>final\<close> set, the test reads
  \<open>fl->to_state\<close> and \<open>fsg->final_state\<close>: a NULL link or a NULL grammar is a crash.
\<close>

function find_exit_best ::
  "fsg_search \<Rightarrow> bool \<Rightarrow> int \<Rightarrow> int \<Rightarrow> fsg_hist_entry \<Rightarrow> int \<Rightarrow> int \<Rightarrow> int
     \<Rightarrow> fsg_error + (int \<times> int)"
where
  "find_exit_best s fin last_frm frm hist_entry bpidx bestscr besthist =
     (if frm \<noteq> last_frm then Inr (bestscr, besthist)
      else if fsg_hist_entry_score hist_entry > bestscr \<and> fin
              \<and> (fsg_hist_entry_fsglink hist_entry = None \<or> fsg s = None)
      then Inl NullDeref
      else
        let take = (fsg_hist_entry_score hist_entry > bestscr \<and>
                    (\<not> fin \<or> map_option fsg_link_to_state (fsg_hist_entry_fsglink hist_entry)
                             = map_option fsg_model_final_state (fsg s)));
            bestscr' = (if take then fsg_hist_entry_score hist_entry else bestscr);
            besthist' = (if take then bpidx else besthist)
        in if bpidx - 1 < 0 then Inr (bestscr', besthist')
           else find_exit_best s fin last_frm
                  (fsg_hist_entry_frame (fsg_history_entry_get (history s) (bpidx - 1)))
                  (fsg_history_entry_get (history s) (bpidx - 1))
                  (bpidx - 1) bestscr' besthist')"
  by pat_completeness auto
termination
  by (relation "measure (\<lambda>(s, fin, last_frm, frm, hist_entry, bpidx, bestscr, besthist). nat bpidx)")
     auto

text \<open>
  \<open>fsg_search_find_exit\<close>: the returned index, paired with the score stored through
  \<open>out_score\<close> (\<open>None\<close> when nothing is stored). The outer \<open>option\<close> is \<open>None\<close> when
  the first loop does not return.
\<close>

definition fsg_search_find_exit ::
  "fsg_search \<Rightarrow> int \<Rightarrow> bool \<Rightarrow> (fsg_error + (int \<times> int option)) option"
where
  "fsg_search_find_exit s frame_idx0 fin =
     (let frame_idx = (if frame_idx0 = -1 then frame s - 1 else frame_idx0)
      in case find_exit_scan (history s) frame_idx frame_idx
                (fsg_history_n_entries (history s) - 1) of
           None \<Rightarrow> None
         | Some (bpidx, frm) \<Rightarrow>
             Some (if bpidx \<le> 0 then Inr (bpidx, None)
                   else case find_exit_best s fin frm frm
                               (fsg_history_entry_get (history s) bpidx) bpidx INT_MIN (-1) of
                          Inl e \<Rightarrow> Inl e
                        | Inr (bestscr, besthist) \<Rightarrow>
                            if besthist = -1 then Inr (-1, None)
                            else Inr (besthist, Some bestscr)))"

declare find_exit_best.simps [simp del]

text \<open>
  For the statement of what the second loop computes: the indices the loop visits (the
  run of entries that ends at the newest entry and shares its frame, newest first), the
  final-state test of an entry, and the score of an entry.
\<close>

definition find_exit_run :: "fsg_hist_entry list \<Rightarrow> nat list" where
  "find_exit_run es =
     takeWhile (\<lambda>i. fsg_hist_entry_frame (es ! i) = fsg_hist_entry_frame (last es))
       (rev [0..<length es])"

definition exit_admitted :: "fsg_search \<Rightarrow> bool \<Rightarrow> nat \<Rightarrow> bool" where
  "exit_admitted s fin i =
     (\<not> fin \<or> map_option fsg_link_to_state (fsg_hist_entry_fsglink (entries (history s) ! i))
               = map_option fsg_model_final_state (fsg s))"

definition exit_score :: "fsg_search \<Rightarrow> nat \<Rightarrow> int" where
  "exit_score s i = fsg_hist_entry_score (entries (history s) ! i)"

definition best_step :: "fsg_search \<Rightarrow> bool \<Rightarrow> nat \<Rightarrow> int \<times> int \<Rightarrow> int \<times> int" where
  "best_step s fin i acc =
     (if exit_score s i > fst acc \<and> exit_admitted s fin i then (exit_score s i, int i) else acc)"

section \<open>Collaborators of the search\<close>

text \<open>
  The membership test that the source writes \<open>c.bv[p >> 5] & (1 << (p & 0x001f))\<close>.
  For a phone id \<open>p \<ge> 0\<close> the index \<open>p >> 5\<close> is \<open>p div 32\<close> and the bit
  \<open>p & 0x1f\<close> is \<open>p mod 32\<close>; an index outside the array is an error.
\<close>

definition ctxt_bit :: "fsg_pnode_ctxt \<Rightarrow> int \<Rightarrow> fsg_error + bool" where
  "ctxt_bit c p =
     (if p < 0 \<or> length (bv c) \<le> nat (p div 32) then Inl OutOfBounds
      else Inr ((bv c ! nat (p div 32)) AND push_bit (nat (p mod 32)) 1 \<noteq> 0))"

text \<open>
  Modelled from the spec: \<open>fsg_pnode_add_all_ctxt\<close> (of the lextree module, which
  fsg\_search.c calls and does not contain) builds the all-ones bitset, which admits
  every context phone.
\<close>

definition fsg_pnode_add_all_ctxt :: "nat \<Rightarrow> fsg_pnode_ctxt" where
  "fsg_pnode_add_all_ctxt n = \<lparr>bv = replicate n (- 1)\<rparr>"

text \<open>
  Modelled from the spec: \<open>hmm_enter\<close> (of hmm.h, which fsg\_search.c uses and does
  not contain) re-activates an HMM with a new token: the entry score, the entry history
  and the frame.
\<close>

definition hmm_enter :: "hmm \<Rightarrow> int \<Rightarrow> int \<Rightarrow> int \<Rightarrow> hmm" where
  "hmm_enter h scr histid frm =
     h\<lparr>hmm_in_score := scr, hmm_in_history := histid, hmm_frame := frm\<rparr>"

text \<open>
  Modelled from the spec: \<open>hmm_vit_eval\<close> (of hmm.c, which fsg\_search.c calls and
  does not contain) is the forward pass of one HMM, delegated to the HMM context; it
  rewrites scores and histories, leaves the \<open>frame\<close> field alone and returns the best
  score.
\<close>

definition hmm_vit_eval :: "(hmm \<Rightarrow> hmm) \<Rightarrow> hmm \<Rightarrow> hmm" where
  "hmm_vit_eval ctx h = (ctx h)\<lparr>hmm_frame := hmm_frame h\<rparr>"

text \<open>
  Modelled from the spec: \<open>fsg_psubtree_pnode_deactivate\<close> (of the lextree module,
  which fsg\_search.c calls and does not contain) resets the HMM of a node: worst scores,
  no history, frame \<open>-1\<close>.
\<close>

definition fsg_psubtree_pnode_deactivate :: "fsg_pnode \<Rightarrow> fsg_pnode" where
  "fsg_psubtree_pnode_deactivate pn =
     pn\<lparr>hmm := \<lparr>hmm_in_score = WORST_SCORE, hmm_in_history = -1, hmm_out_score = WORST_SCORE,
                 hmm_out_history = -1, hmm_bestscore = WORST_SCORE, hmm_frame = -1\<rparr>\<rparr>"

text \<open>
  The activation that \<open>fsg_search_pnode_trans\<close> and \<open>fsg_search_word_trans\<close> both
  perform on a node: it is added to the next active list unless its HMM is already
  scheduled for the next frame \<open>nf\<close>, and its HMM is entered with the new token.
\<close>

definition activate_pnode :: "int \<Rightarrow> nat \<Rightarrow> int \<Rightarrow> int \<Rightarrow> fsg_search \<Rightarrow> fsg_search" where
  "activate_pnode nf pnode newscore histid s =
     (if hmm_frame (hmm (pnodes s pnode)) < nf
      then s\<lparr>pnode_active_next := pnode # pnode_active_next s\<rparr>
      else s)
       \<lparr>pnodes := (pnodes s)
          (pnode := (pnodes s pnode)
             \<lparr>hmm := hmm_enter (hmm (pnodes s pnode)) newscore histid nf\<rparr>)\<rparr>"

section \<open>Null transitions: fsg\_search\_null\_prop\<close>

text \<open>
  The inner loop \<open>for (d = 0; d < fsg_model_n_state(fsg); d++)\<close> over the states
  \<open>ds\<close> still to visit, for the history entry \<open>hist_entry\<close> of index \<open>bpidx\<close> and its
  destination state \<open>s\<close>.
\<close>

fun null_prop_states ::
  "fsg_model \<Rightarrow> int \<Rightarrow> fsg_hist_entry \<Rightarrow> int \<Rightarrow> int \<Rightarrow> int list \<Rightarrow> fsg_history \<Rightarrow> fsg_history"
where
  "null_prop_states g thresh hist_entry bpidx s [] h = h"
| "null_prop_states g thresh hist_entry bpidx s (d # ds) h =
     null_prop_states g thresh hist_entry bpidx s ds
       (case fsg_model_null_trans g s d of
          None \<Rightarrow> h
        | Some l \<Rightarrow>
            let newscore = fsg_hist_entry_score hist_entry + fsg_link_logs2prob l
            in if newscore \<ge> thresh
               then fsg_history_entry_add h (Some l) (fsg_hist_entry_frame hist_entry)
                      newscore bpidx (fsg_hist_entry_lc hist_entry)
                      (fsg_hist_entry_rc hist_entry)
               else h)"

text \<open>
  The outer loop \<open>for (bpidx = fsgs->bpidx_start; bpidx < n_entries; bpidx++)\<close> over
  the indices still to visit. The grammar is read through \<open>fsg\<close> for every entry.
\<close>

fun null_prop_entries ::
  "fsg_model option \<Rightarrow> int \<Rightarrow> int list \<Rightarrow> fsg_history \<Rightarrow> fsg_error + fsg_history"
where
  "null_prop_entries fsg0 thresh [] h = Inr h"
| "null_prop_entries fsg0 thresh (bpidx # rest) h =
     (if bpidx < 0 then Inl OutOfBounds
      else case fsg0 of
        None \<Rightarrow> Inl NullDeref
      | Some g \<Rightarrow>
          let hist_entry = fsg_history_entry_get h bpidx;
              s = (case fsg_hist_entry_fsglink hist_entry of
                     Some l \<Rightarrow> fsg_link_to_state l
                   | None \<Rightarrow> fsg_model_start_state g)
          in null_prop_entries fsg0 thresh rest
               (null_prop_states g thresh hist_entry bpidx s [0 .. fsg_model_n_state g - 1] h))"

definition fsg_search_null_prop :: "fsg_search \<Rightarrow> fsg_error + fsg_search" where
  "fsg_search_null_prop s =
     (let thresh = bestscore s + wbeam s;
          n_entries = fsg_history_n_entries (history s)
      in case null_prop_entries (fsg s) thresh [bpidx_start s .. n_entries - 1] (history s) of
           Inl e \<Rightarrow> Inl e
         | Inr h \<Rightarrow> Inr (s\<lparr>history := h\<rparr>))"

text \<open>
  For the statement of what \<open>fsg_search_null_prop\<close> emits: \<open>add_entry e\<close> is the call
  of \<open>fsg_history_entry_add\<close> with the fields of \<open>e\<close>, and \<open>null_entry s g bpidx d\<close>
  the entry that the null transition from the destination state of entry \<open>bpidx\<close> to
  state \<open>d\<close> gives rise to, if there is such a transition and its score passes the word
  beam.
\<close>

definition add_entry :: "fsg_hist_entry \<Rightarrow> fsg_history \<Rightarrow> fsg_history" where
  "add_entry e h =
     fsg_history_entry_add h (fsg_hist_entry_fsglink e) (fsg_hist_entry_frame e)
       (fsg_hist_entry_score e) (fsg_hist_entry_pred e) (fsg_hist_entry_lc e)
       (fsg_hist_entry_rc e)"

definition hist_entry_dest :: "fsg_model \<Rightarrow> fsg_hist_entry \<Rightarrow> int" where
  "hist_entry_dest g e =
     (case fsg_hist_entry_fsglink e of
        Some l \<Rightarrow> fsg_link_to_state l
      | None \<Rightarrow> fsg_model_start_state g)"

definition null_entry :: "fsg_search \<Rightarrow> fsg_model \<Rightarrow> int \<Rightarrow> int \<Rightarrow> fsg_hist_entry option" where
  "null_entry s g bpidx d =
     (let e = entries (history s) ! nat bpidx
      in case fsg_model_null_trans g (hist_entry_dest g e) d of
           None \<Rightarrow> None
         | Some l \<Rightarrow>
             if fsg_hist_entry_score e + fsg_link_logs2prob l \<ge> bestscore s + wbeam s
             then Some \<lparr>fsg_hist_entry_fsglink = Some l,
                        fsg_hist_entry_frame = fsg_hist_entry_frame e,
                        fsg_hist_entry_score = fsg_hist_entry_score e + fsg_link_logs2prob l,
                        fsg_hist_entry_pred = bpidx,
                        fsg_hist_entry_lc = fsg_hist_entry_lc e,
                        fsg_hist_entry_rc = fsg_hist_entry_rc e\<rparr>
             else None)"

section \<open>Cross-word transitions: fsg\_search\_word\_trans\<close>

text \<open>
  One call of \<open>hmm_enter\<close> on a lextree node, as the search makes it: the address of the
  node, the entering score, the history index and the frame, and the entry score that
  the HMM of the node had when the call was made.
\<close>

record hmm_enter_call =
  call_pnode :: nat
  call_score :: int
  call_history :: int
  call_frame :: int
  call_in_score :: int

text \<open>
  The body of the loop over the roots, \<open>for (root = fsg_lextree_root(lextree, d); root;
  root = root->sibling)\<close>, for one root. The state is paired with the calls of
  \<open>hmm_enter\<close> made so far. The two bit tests are joined by \<open>&&\<close>: the second is
  evaluated only when the first holds.
\<close>

definition word_trans_root ::
  "int \<Rightarrow> int \<Rightarrow> fsg_hist_entry \<Rightarrow> int \<Rightarrow> nat \<Rightarrow> fsg_search \<times> hmm_enter_call list
     \<Rightarrow> fsg_error + fsg_search \<times> hmm_enter_call list"
where
  "word_trans_root thresh nf hist_entry bpidx root st =
     (let s = fst st;
          r = pnodes s root;
          rc = ci_ext r;
          lc = fsg_hist_entry_lc hist_entry
      in case ctxt_bit (ctxt r) lc of
           Inl e \<Rightarrow> Inl e
         | Inr lc_ok \<Rightarrow>
             (if \<not> lc_ok then Inr st
              else
                (case ctxt_bit (fsg_hist_entry_rc hist_entry) rc of
                   Inl e \<Rightarrow> Inl e
                 | Inr rc_ok \<Rightarrow>
                     (if \<not> rc_ok then Inr st
                      else
                        let newscore = fsg_hist_entry_score hist_entry + logs2prob r
                        in if newscore \<ge> thresh \<and> newscore > hmm_in_score (hmm r)
                           then Inr
                             (activate_pnode nf root newscore bpidx s,
                              snd st @
                                [\<lparr>call_pnode = root, call_score = newscore,
                                  call_history = bpidx, call_frame = nf,
                                  call_in_score = hmm_in_score (hmm r)\<rparr>])
                           else Inr st))))"

fun word_trans_roots ::
  "int \<Rightarrow> int \<Rightarrow> fsg_hist_entry \<Rightarrow> int \<Rightarrow> nat list \<Rightarrow> fsg_search \<times> hmm_enter_call list
     \<Rightarrow> fsg_error + fsg_search \<times> hmm_enter_call list"
where
  "word_trans_roots thresh nf hist_entry bpidx [] st = Inr st"
| "word_trans_roots thresh nf hist_entry bpidx (root # rest) st =
     (case word_trans_root thresh nf hist_entry bpidx root st of
        Inl e \<Rightarrow> Inl e
      | Inr st' \<Rightarrow> word_trans_roots thresh nf hist_entry bpidx rest st')"

text \<open>
  The body of the loop over the history entries, for the entry of index \<open>bpidx\<close>. The
  \<open>assert\<close> on the frame of the entry aborts; the start state is read from the grammar
  only for an entry without a link; the roots are read from the lextree.
\<close>

definition word_trans_entry ::
  "int \<Rightarrow> int \<Rightarrow> int \<Rightarrow> fsg_search \<times> hmm_enter_call list
     \<Rightarrow> fsg_error + fsg_search \<times> hmm_enter_call list"
where
  "word_trans_entry thresh nf bpidx st =
     (let s = fst st
      in if bpidx < 0 then Inl OutOfBounds
         else
           let hist_entry = fsg_history_entry_get (history s) bpidx
           in if frame s \<noteq> fsg_hist_entry_frame hist_entry then Inl AssertFailed
              else case (case fsg_hist_entry_fsglink hist_entry of
                           Some l \<Rightarrow> Inr (fsg_link_to_state l)
                         | None \<Rightarrow> (case fsg s of
                                      None \<Rightarrow> Inl NullDeref
                                    | Some g \<Rightarrow> Inr (fsg_model_start_state g))) of
                     Inl e \<Rightarrow> Inl e
                   | Inr d \<Rightarrow>
                       (case lextree s of
                          None \<Rightarrow> Inl NullDeref
                        | Some lt \<Rightarrow>
                            word_trans_roots thresh nf hist_entry bpidx
                              (fsg_lextree_root lt d) st))"

fun word_trans_entries ::
  "int \<Rightarrow> int \<Rightarrow> int list \<Rightarrow> fsg_search \<times> hmm_enter_call list
     \<Rightarrow> fsg_error + fsg_search \<times> hmm_enter_call list"
where
  "word_trans_entries thresh nf [] st = Inr st"
| "word_trans_entries thresh nf (bpidx # rest) st =
     (case word_trans_entry thresh nf bpidx st of
        Inl e \<Rightarrow> Inl e
      | Inr st' \<Rightarrow> word_trans_entries thresh nf rest st')"

text \<open>
  \<open>fsg_search_word_trans\<close>: the state it leaves, and the calls of \<open>hmm_enter\<close> it made,
  in order.
\<close>

definition fsg_search_word_trans ::
  "fsg_search \<Rightarrow> fsg_error + fsg_search \<times> hmm_enter_call list"
where
  "fsg_search_word_trans s =
     (let n_entries = fsg_history_n_entries (history s);
          thresh = bestscore s + beam s;
          nf = frame s + 1
      in word_trans_entries thresh nf [bpidx_start s .. n_entries - 1] (s, []))"

section \<open>Binary32 arithmetic of the beam factor\<close>

text \<open>
  \<open>beam_factor\<close> is a \<open>float32\<close>. The three operations that the search applies to it
  are modelled exactly, for IEEE-754 binary32 with rounding to nearest, ties to even,
  in the range of normal numbers, every float operation being rounded to binary32
  (\<open>FLT_EVAL_METHOD\<close> 0): the product of two floats, the conversion of an int32 to a
  float, and the truncating cast of a float to an int32. \<open>f32_round m e\<close> rounds
  the number \<open>m * 2 ^ e\<close> to a significand of 24 bits.
\<close>

fun bitlen :: "nat \<Rightarrow> nat" where
  "bitlen n = (if n = 0 then 0 else Suc (bitlen (n div 2)))"

declare bitlen.simps [simp del]

definition f32_round :: "int \<Rightarrow> int \<Rightarrow> float32" where
  "f32_round m e =
     (let a = nat \<bar>m\<bar>; k = bitlen a - 24
      in if k = 0 then Float32 m e
         else
           let q = a div 2 ^ k; r = a mod 2 ^ k; half = 2 ^ (k - 1);
               q' = (if half < r \<or> (r = half \<and> odd q) then q + 1 else q)
           in Float32 (sgn m * int q') (e + int k))"

definition f32_mul :: "float32 \<Rightarrow> float32 \<Rightarrow> float32" where
  "f32_mul x y = f32_round (mant x * mant y) (expo x + expo y)"

definition f32_of_int32 :: "int \<Rightarrow> float32" where
  "f32_of_int32 i = f32_round i 0"

definition f32_to_int32 :: "float32 \<Rightarrow> int" where
  "f32_to_int32 x =
     (if 0 \<le> expo x then mant x * 2 ^ nat (expo x)
      else sgn (mant x) * (\<bar>mant x\<bar> div 2 ^ nat (- expo x)))"

text \<open>
  The order of two numbers \<open>m * 2 ^ e\<close>, and the constants of the source: \<open>1.0f\<close>,
  \<open>0.9f\<close> (the float \<open>0x3F666666\<close>) and the double \<open>0.1\<close> (\<open>0x3FB999999999999A\<close>),
  against which the float is compared after its exact conversion to double.
\<close>

definition dyadic_less :: "int \<times> int \<Rightarrow> int \<times> int \<Rightarrow> bool" where
  "dyadic_less x y =
     (fst x * 2 ^ nat (snd x - min (snd x) (snd y))
        < fst y * 2 ^ nat (snd y - min (snd x) (snd y)))"

definition f32_one :: float32 where
  "f32_one = Float32 1 0"

definition f32_0_9 :: float32 where
  "f32_0_9 = Float32 15099494 (- 24)"

definition f64_0_1 :: "int \<times> int" where
  "f64_0_1 = (3602879701896397, - 55)"

definition f32_gt_0_1 :: "float32 \<Rightarrow> bool" where
  "f32_gt_0_1 x = dyadic_less f64_0_1 (mant x, expo x)"

text \<open>Whether the value of a float is below the real number one tenth.\<close>

definition f32_below_tenth :: "float32 \<Rightarrow> bool" where
  "f32_below_tenth x = (10 * mant x * 2 ^ nat (expo x) < 2 ^ nat (- expo x))"

text \<open>The beam scaled by the factor, \<open>(int32) (beam_orig * beam_factor)\<close>.\<close>

definition scale_beam :: "int \<Rightarrow> float32 \<Rightarrow> int" where
  "scale_beam b f = f32_to_int32 (f32_mul (f32_of_int32 b) f)"

section \<open>HMM evaluation and the beam controller: fsg\_search\_hmm\_eval\<close>

text \<open>
  The loop over the active list: every node must be scheduled for the current frame
  (\<open>assert\<close>), its HMM is evaluated, and the loop keeps the count \<open>n\<close> and the best
  score.
\<close>

fun hmm_eval_loop ::
  "nat list \<Rightarrow> fsg_search \<times> int \<times> int \<Rightarrow> fsg_error + fsg_search \<times> int \<times> int"
where
  "hmm_eval_loop [] st = Inr st"
| "hmm_eval_loop (pnode # rest) (s, n, bestscr) =
     (if hmm_frame (hmm (pnodes s pnode)) \<noteq> frame s then Inl AssertFailed
      else
        let h = hmm_vit_eval (hmmctx s) (hmm (pnodes s pnode));
            score = hmm_bestscore h
        in hmm_eval_loop rest
             (s\<lparr>pnodes := (pnodes s)(pnode := (pnodes s pnode)\<lparr>hmm := h\<rparr>)\<rparr>,
              n + 1,
              if bestscr < score then score else bestscr))"

text \<open>The beam adjustment of lines 455 to 477, for \<open>n\<close> evaluated HMMs.\<close>

definition adjust_beams :: "int \<Rightarrow> fsg_search \<Rightarrow> fsg_search" where
  "adjust_beams n s =
     (if maxhmmpf s \<noteq> -1 \<and> n > maxhmmpf s then
        (if f32_gt_0_1 (beam_factor s) then
           let f = f32_mul (beam_factor s) f32_0_9
           in s\<lparr>beam_factor := f,
                 beam := scale_beam (beam_orig s) f,
                 pbeam := scale_beam (pbeam_orig s) f,
                 wbeam := scale_beam (wbeam_orig s) f\<rparr>
         else s)
      else s\<lparr>beam_factor := f32_one, beam := beam_orig s,
               pbeam := pbeam_orig s, wbeam := wbeam_orig s\<rparr>)"

definition fsg_search_hmm_eval :: "fsg_search \<Rightarrow> fsg_error + fsg_search" where
  "fsg_search_hmm_eval s =
     (if pnode_active s = [] then Inr s
      else
        (case hmm_eval_loop (pnode_active s) (s, 0, WORST_SCORE) of
           Inl e \<Rightarrow> Inl e
         | Inr (s1, n, bestscr) \<Rightarrow>
             (let s2 = adjust_beams n (s1\<lparr>n_hmm_eval := n_hmm_eval s1 + n\<rparr>)
              in case lextree s2 of
                   None \<Rightarrow> Inl NullDeref
                 | Some lt \<Rightarrow>
                     if n > fsg_lextree_n_pnode lt then Inl Fatal
                     else Inr (s2\<lparr>bestscore := bestscr\<rparr>))))"

section \<open>Pruning and propagation: fsg\_search\_hmm\_prune\_prop\<close>

text \<open>
  The body of the loop of \<open>fsg_search_pnode_trans\<close> over the children of \<open>pnode\<close>,
  for one child. The exit score and history are read from the HMM of \<open>pnode\<close>.
\<close>

definition pnode_trans_child :: "int \<Rightarrow> int \<Rightarrow> nat \<Rightarrow> nat \<Rightarrow> fsg_search \<Rightarrow> fsg_search" where
  "pnode_trans_child thresh nf pnode child s =
     (let h = hmm (pnodes s pnode);
          c = pnodes s child;
          newscore = hmm_out_score h + logs2prob c
      in if newscore \<ge> thresh \<and> newscore > hmm_in_score (hmm c)
         then activate_pnode nf child newscore (hmm_out_history h) s
         else s)"

definition fsg_search_pnode_trans :: "fsg_search \<Rightarrow> nat \<Rightarrow> fsg_error + fsg_search" where
  "fsg_search_pnode_trans s pnode =
     (if fsg_pnode_leaf (pnodes s pnode) then Inl AssertFailed
      else Inr (fold (pnode_trans_child (bestscore s + beam s) (frame s + 1) pnode)
                  (fsg_pnode_succ (pnodes s pnode)) s))"

text \<open>
  \<open>fsg_search_pnode_exit\<close>: the word exit of a leaf. The three \<open>assert\<close>s are on the
  leaf flag, on the link and on its word id; the filler test reads the grammar.
\<close>

definition fsg_search_pnode_exit :: "fsg_search \<Rightarrow> nat \<Rightarrow> fsg_error + fsg_search" where
  "fsg_search_pnode_exit s pnode =
     (let pn = pnodes s pnode; h = hmm pn
      in if \<not> fsg_pnode_leaf pn then Inl AssertFailed
         else
           (case fsg_pnode_fsglink pn of
              None \<Rightarrow> Inl AssertFailed
            | Some fl \<Rightarrow>
                (let wid = fsg_link_wid fl
                 in if wid < 0 then Inl AssertFailed
                    else
                      (case fsg s of
                         None \<Rightarrow> Inl NullDeref
                       | Some g \<Rightarrow>
                           if fsg_model_is_filler g wid
                              \<or> dict_pronlen (dict s)
                                   (dict_to_id (dict s) (fsg_model_word_str g wid)) = 1
                           then Inr (s\<lparr>history :=
                                  fsg_history_entry_add (history s) (Some fl) (frame s)
                                    (hmm_out_score h) (hmm_out_history h) (ci_ext pn)
                                    (fsg_pnode_add_all_ctxt (ctxt_bvsz s))\<rparr>)
                           else Inr (s\<lparr>history :=
                                  fsg_history_entry_add (history s) (Some fl) (frame s)
                                    (hmm_out_score h) (hmm_out_history h) (ci_ext pn)
                                    (ctxt pn)\<rparr>)))))"

text \<open>
  The first step for a node that survives the beam, \<open>Keep this HMM active in the next
  frame\<close>: a node still at the current frame is moved to the next frame and added to the
  next active list.
\<close>

definition keep_active :: "nat \<Rightarrow> fsg_search \<Rightarrow> fsg_search" where
  "keep_active pnode s =
     (if hmm_frame (hmm (pnodes s pnode)) = frame s
      then s\<lparr>pnodes := (pnodes s)
               (pnode := (pnodes s pnode)
                  \<lparr>hmm := (hmm (pnodes s pnode))\<lparr>hmm_frame := frame s + 1\<rparr>\<rparr>),
             pnode_active_next := pnode # pnode_active_next s\<rparr>
      else s)"

text \<open>
  The body of the loop of \<open>fsg_search_hmm_prune_prop\<close>, for one active node and the
  three thresholds that the function computes before the loop.
\<close>

definition prune_prop_pnode ::
  "int \<Rightarrow> int \<Rightarrow> int \<Rightarrow> nat \<Rightarrow> fsg_search \<Rightarrow> fsg_error + fsg_search"
where
  "prune_prop_pnode thresh phone_thresh word_thresh pnode s =
     (let pn = pnodes s pnode
      in if hmm_bestscore (hmm pn) \<ge> thresh then
           (if hmm_frame (hmm pn) \<noteq> frame s \<and> hmm_frame (hmm pn) \<noteq> frame s + 1
            then Inl AssertFailed
            else
              let s1 = keep_active pnode s
              in if \<not> fsg_pnode_leaf pn then
                   (if hmm_out_score (hmm pn) \<ge> phone_thresh
                    then fsg_search_pnode_trans s1 pnode else Inr s1)
                 else
                   (if hmm_out_score (hmm pn) \<ge> word_thresh
                    then fsg_search_pnode_exit s1 pnode else Inr s1))
         else Inr s)"

fun prune_prop_loop ::
  "int \<Rightarrow> int \<Rightarrow> int \<Rightarrow> nat list \<Rightarrow> fsg_search \<Rightarrow> fsg_error + fsg_search"
where
  "prune_prop_loop thresh phone_thresh word_thresh [] s = Inr s"
| "prune_prop_loop thresh phone_thresh word_thresh (pnode # rest) s =
     (case prune_prop_pnode thresh phone_thresh word_thresh pnode s of
        Inl e \<Rightarrow> Inl e
      | Inr s' \<Rightarrow> prune_prop_loop thresh phone_thresh word_thresh rest s')"

definition fsg_search_hmm_prune_prop :: "fsg_search \<Rightarrow> fsg_error + fsg_search" where
  "fsg_search_hmm_prune_prop s =
     (if pnode_active_next s \<noteq> [] then Inl AssertFailed
      else prune_prop_loop (bestscore s + beam s) (bestscore s + pbeam s)
             (bestscore s + wbeam s) (pnode_active s) s)"

section \<open>The utterance life cycle: start, step, finish\<close>

text \<open>
  \<open>fsg_search_sen_active\<close> marks the senones of the active HMMs in the acoustic model;
  what the search itself can observe of it is its \<open>assert\<close> on the frames of the
  active nodes.
\<close>

definition fsg_search_sen_active :: "fsg_search \<Rightarrow> fsg_error + fsg_search" where
  "fsg_search_sen_active s =
     (if list_all (\<lambda>pnode. hmm_frame (hmm (pnodes s pnode)) = frame s) (pnode_active s)
      then Inr s else Inl AssertFailed)"

text \<open>
  The last loop of \<open>fsg_search_step\<close>: a node of the active list that is still at the
  current frame is deactivated; any other must be at the next frame (\<open>assert\<close>).
\<close>

fun step_deactivate :: "nat list \<Rightarrow> fsg_search \<Rightarrow> fsg_error + fsg_search" where
  "step_deactivate [] s = Inr s"
| "step_deactivate (pnode # rest) s =
     (if hmm_frame (hmm (pnodes s pnode)) = frame s
      then step_deactivate rest
             (s\<lparr>pnodes := (pnodes s)
                  (pnode := fsg_psubtree_pnode_deactivate (pnodes s pnode))\<rparr>)
      else if hmm_frame (hmm (pnodes s pnode)) \<noteq> frame s + 1 then Inl AssertFailed
      else step_deactivate rest s)"

text \<open>
  \<open>fsg_search_step\<close>. The acoustic model is a collaborator: \<open>senscr\<close> is what the
  senone scores that \<open>acmod_score\<close> returns for the frame make of one HMM, and \<open>am\<close> is
  the acoustic model after that call. The result is the returned number and the state.
\<close>

definition fsg_search_step ::
  "fsg_search \<Rightarrow> (hmm \<Rightarrow> hmm) \<Rightarrow> acmod \<Rightarrow> fsg_error + int \<times> fsg_search"
where
  "fsg_search_step s senscr am =
     (if n_feat_frame (acmod s) = 0 then Inr (0, s)
      else
        (case (if \<not> compallsen (acmod s) then fsg_search_sen_active s else Inr s) of
           Inl e \<Rightarrow> Inl e
         | Inr s0 \<Rightarrow>
             (let s1 = s0\<lparr>acmod := am, n_sen_eval := n_sen_eval s0 + n_senone_active am,
                         hmmctx := senscr,
                         bpidx_start := fsg_history_n_entries (history s0)\<rparr>
              in (case fsg_search_hmm_eval s1 of
                    Inl e \<Rightarrow> Inl e
                  | Inr s2 \<Rightarrow>
                      (case fsg_search_hmm_prune_prop s2 of
                         Inl e \<Rightarrow> Inl e
                       | Inr s3 \<Rightarrow>
                           (case fsg_search_null_prop
                                   (s3\<lparr>history := fsg_history_end_frame (history s3)\<rparr>) of
                              Inl e \<Rightarrow> Inl e
                            | Inr s4 \<Rightarrow>
                                (case fsg_search_word_trans
                                        (s4\<lparr>history := fsg_history_end_frame (history s4)\<rparr>) of
                                   Inl e \<Rightarrow> Inl e
                                 | Inr (s5, calls) \<Rightarrow>
                                     (case step_deactivate (pnode_active s5) s5 of
                                        Inl e \<Rightarrow> Inl e
                                      | Inr s6 \<Rightarrow>
                                          Inr (1, s6\<lparr>pnode_active := pnode_active_next s6,
                                                     pnode_active_next := [],
                                                     frame := frame s6 + 1\<rparr>)))))))))"

text \<open>
  Modelled from the spec: \<open>fsg_history_utt_start\<close> declares the start of an utterance on
  the drained history; it adds no entry.
\<close>

definition fsg_history_utt_start :: "fsg_history \<Rightarrow> fsg_history" where
  "fsg_history_utt_start h = h"

text \<open>\<open>fsg_search_start\<close>; \<open>sil_ciphone_id\<close> is the phone id of \<open>SIL\<close>.\<close>

definition fsg_search_start :: "fsg_search \<Rightarrow> fsg_error + int \<times> fsg_search" where
  "fsg_search_start s =
     (let s1 = s\<lparr>beam_factor := f32_one, beam := beam_orig s, pbeam := pbeam_orig s,
                 wbeam := wbeam_orig s\<rparr>;
          silcipid = sil_ciphone_id (acmod s1)
      in if \<not> (pnode_active s1 = [] \<and> pnode_active_next s1 = []) then Inl AssertFailed
         else
           let s2 = s1\<lparr>history := fsg_history_utt_start (fsg_history_reset (history s1)),
                       final := False\<rparr>;
               c = fsg_pnode_add_all_ctxt (ctxt_bvsz s2);
               s3 = s2\<lparr>frame := -1, bestscore := 0\<rparr>;
               s4 = s3\<lparr>history := fsg_history_entry_add (history s3) None (-1) 0 (-1) silcipid c,
                       bpidx_start := 0\<rparr>
           in case fsg_search_null_prop s4 of
                Inl e \<Rightarrow> Inl e
              | Inr s5 \<Rightarrow>
                  (case fsg_search_word_trans s5 of
                     Inl e \<Rightarrow> Inl e
                   | Inr (s6, calls) \<Rightarrow>
                       Inr (0, s6\<lparr>pnode_active := pnode_active_next s6,
                                  pnode_active_next := [],
                                  frame := frame s6 + 1,
                                  n_hmm_eval := 0, n_sen_eval := 0\<rparr>)))"

text \<open>
  \<open>fsg_search_finish\<close>. Its sanity check reads the number of nodes through the lextree
  pointer.
\<close>

definition deactivate_pnode :: "nat \<Rightarrow> fsg_search \<Rightarrow> fsg_search" where
  "deactivate_pnode pnode s =
     s\<lparr>pnodes := (pnodes s)(pnode := fsg_psubtree_pnode_deactivate (pnodes s pnode))\<rparr>"

definition fsg_search_finish :: "fsg_search \<Rightarrow> fsg_error + int \<times> fsg_search" where
  "fsg_search_finish s =
     (let s1 = fold deactivate_pnode (pnode_active s) s;
          s2 = fold deactivate_pnode (pnode_active_next s1) s1;
          s3 = s2\<lparr>pnode_active := [], pnode_active_next := [], final := True\<rparr>
      in case lextree s3 of
           None \<Rightarrow> Inl NullDeref
         | Some lt \<Rightarrow> Inr (0, s3))"

section \<open>The grammar registry\<close>

text \<open>
  The table \<open>fsgs\<close> maps a name to a grammar. \<open>fsg_search_reinit\<close> frees the lextree
  and builds a new one for the current grammar; the construction, \<open>fsg_lextree_init\<close>,
  is the lextree module's and is a parameter here.
\<close>

definition fsg_set_get_fsg :: "fsg_search \<Rightarrow> string \<Rightarrow> fsg_model option" where
  "fsg_set_get_fsg s name = fsgs s name"

definition fsg_set_remove_byname :: "fsg_search \<Rightarrow> string \<Rightarrow> fsg_model option \<times> fsg_search" where
  "fsg_set_remove_byname s key =
     (case fsgs s key of
        None \<Rightarrow> (None, s)
      | Some oldfsg \<Rightarrow>
          let s1 = s\<lparr>fsgs := (fsgs s)(key := None)\<rparr>
          in if map_option fsg_addr (fsg s1) = Some (fsg_addr oldfsg)
             then (Some oldfsg,
                   s1\<lparr>lextree := None,
                      history := fsg_history_set_fsg (history s1) None,
                      fsg := None\<rparr>)
             else (Some oldfsg, s1))"

definition fsg_set_select :: "fsg_search \<Rightarrow> string \<Rightarrow> fsg_model option \<times> fsg_search" where
  "fsg_set_select s name =
     (case fsg_set_get_fsg s name of
        None \<Rightarrow> (None, s)
      | Some g \<Rightarrow> (Some g, s\<lparr>fsg := Some g\<rparr>))"

definition fsg_search_reinit ::
  "(fsg_model option \<Rightarrow> fsg_lextree) \<Rightarrow> fsg_search \<Rightarrow> int \<times> fsg_search"
where
  "fsg_search_reinit fsg_lextree_init s =
     (0, s\<lparr>lextree := Some (fsg_lextree_init (fsg s)),
           history := fsg_history_set_fsg (history s) (fsg s)\<rparr>)"

section \<open>The lattice cache: fsg\_search\_lattice\<close>

text \<open>
  \<open>fsg_search_lattice\<close> returns the lattice of the search when there is one over the
  current number of frames. Otherwise it frees the old lattice and builds a new one:
  \<open>ps_lattice_init_search(search, fsgs->frame)\<close> creates a lattice over \<open>frame\<close> frames,
  the nodes and links are made from the history with the operations of the lattice
  module, and the finished lattice is stored in \<open>search->dag\<close>. The construction is a
  parameter here: \<open>build\<close> gives the new object, or nothing on the path \<open>error_out\<close>.
\<close>

definition fsg_search_lattice ::
  "(fsg_search \<Rightarrow> ps_lattice option) \<Rightarrow> fsg_search \<Rightarrow> ps_lattice option \<times> fsg_search"
where
  "fsg_search_lattice build s =
     (if (case dag s of None \<Rightarrow> False | Some d \<Rightarrow> n_frames d = frame s)
      then (dag s, s)
      else
        let s1 = s\<lparr>dag := None\<rparr>
        in case build s1 of
             None \<Rightarrow> (None, s1)
           | Some d \<Rightarrow> (Some (d\<lparr>n_frames := frame s1\<rparr>),
                        s1\<lparr>dag := Some (d\<lparr>n_frames := frame s1\<rparr>)\<rparr>))"

text \<open>
  For the statement of what the calls of \<open>hmm_enter\<close> satisfy: what
  \<open>fsg_search_word_trans\<close> leaves alone while it runs (the history, the frame, the
  grammar, the lextree, the fixed fields of the nodes, and every node that no call has
  named), and the conditions under which a call for the entry \<open>b\<close> is made.
\<close>

definition wt_frame :: "fsg_search \<Rightarrow> fsg_search \<times> hmm_enter_call list \<Rightarrow> bool" where
  "wt_frame s st \<longleftrightarrow>
     (let t = fst st in
     (\<forall>p. pnodes t p \<noteq> pnodes s p \<longrightarrow> p \<in> call_pnode ` set (snd st)) \<and>
     history t = history s \<and> frame t = frame s \<and> lextree t = lextree s \<and> fsg t = fsg s \<and>
     (\<forall>p. ctxt (pnodes t p) = ctxt (pnodes s p) \<and> ci_ext (pnodes t p) = ci_ext (pnodes s p) \<and>
          logs2prob (pnodes t p) = logs2prob (pnodes s p)))"

definition wt_call_ok :: "fsg_search \<Rightarrow> int \<Rightarrow> int \<Rightarrow> int \<Rightarrow> hmm_enter_call \<Rightarrow> bool" where
  "wt_call_ok s thresh nf b c \<longleftrightarrow>
     call_history c = b \<and> call_frame c = nf \<and>
     ctxt_bit (ctxt (pnodes s (call_pnode c)))
       (fsg_hist_entry_lc (fsg_history_entry_get (history s) b)) = Inr True \<and>
     ctxt_bit (fsg_hist_entry_rc (fsg_history_entry_get (history s) b))
       (ci_ext (pnodes s (call_pnode c))) = Inr True \<and>
     call_score c = fsg_hist_entry_score (fsg_history_entry_get (history s) b)
                      + logs2prob (pnodes s (call_pnode c)) \<and>
     call_score c \<ge> thresh \<and> call_score c > call_in_score c"

section \<open>The hypothesis: fsg\_search\_hyp\<close>

text \<open>
  The backtrace of \<open>fsg_search_hyp\<close>, \<open>while (bp > 0)\<close>, follows \<open>pred\<close> and collects
  the words of the entries that are neither null transitions nor fillers. The loop ends
  when \<open>pred\<close> is not positive, and nothing in it checks that \<open>pred\<close> decreases, so it
  is a partial function; the result lists the words in the order of the utterance. The
  source runs the loop twice, first for the length and then to fill the string from its
  end.
\<close>

partial_function (option) hyp_words ::
  "fsg_search \<Rightarrow> int \<Rightarrow> (fsg_error + string list) option"
where
  "hyp_words s bp =
     (if bp > 0 then
        (if fsg_history_n_entries (history s) \<le> bp then Some (Inl OutOfBounds)
         else
           (case fsg_hist_entry_fsglink (fsg_history_entry_get (history s) bp) of
              None \<Rightarrow> Some (Inl NullDeref)
            | Some fl \<Rightarrow>
                (if fsg_link_wid fl < 0
                 then hyp_words s (fsg_hist_entry_pred (fsg_history_entry_get (history s) bp))
                 else
                   (case fsg s of
                      None \<Rightarrow> Some (Inl NullDeref)
                    | Some g \<Rightarrow>
                        (if fsg_model_is_filler g (fsg_link_wid fl)
                         then hyp_words s
                                (fsg_hist_entry_pred (fsg_history_entry_get (history s) bp))
                         else Option.bind
                                (hyp_words s
                                   (fsg_hist_entry_pred
                                      (fsg_history_entry_get (history s) bp)))
                                (\<lambda>r. Some (map_sum id
                                   (\<lambda>ws. ws @ [fsg_model_word_str g (fsg_link_wid fl)])
                                   r)))))))
      else Some (Inr []))"

fun join_words :: "string list \<Rightarrow> string" where
  "join_words [] = []"
| "join_words [w] = w"
| "join_words (w # ws) = w @ '' '' @ join_words ws"

text \<open>
  \<open>fsg_search_hyp\<close>: the returned string (\<open>None\<close> is the NULL pointer), the score
  stored through \<open>out_score\<close>, and the state. With \<open>bestpath\<close> on a finished utterance
  the hypothesis is that of the best path of the lattice, computed by the lattice
  module: \<open>lattice_hyp\<close> stands for \<open>fsg_search_bestpath\<close> followed by
  \<open>ps_lattice_hyp\<close>. The outer \<open>option\<close> is \<open>None\<close> when a loop does not return.
\<close>

definition fsg_search_hyp ::
  "(fsg_search \<Rightarrow> ps_lattice option) \<Rightarrow> (ps_lattice \<Rightarrow> (string \<times> int) option) \<Rightarrow> fsg_search
     \<Rightarrow> (fsg_error + (string option \<times> int option) \<times> fsg_search) option"
where
  "fsg_search_hyp build lattice_hyp s =
     (case fsg_search_find_exit s (frame s) (final s) of
        None \<Rightarrow> None
      | Some (Inl e) \<Rightarrow> Some (Inl e)
      | Some (Inr (bpidx, scr)) \<Rightarrow>
          if bpidx \<le> 0 then Some (Inr ((None, scr), s))
          else if bestpath s \<and> final s then
            (case fsg_search_lattice build s of
               (None, s1) \<Rightarrow> Some (Inr ((None, scr), s1))
             | (Some d, s1) \<Rightarrow>
                 (case lattice_hyp d of
                    None \<Rightarrow> Some (Inr ((None, scr), s1))
                  | Some (str, scr') \<Rightarrow> Some (Inr ((Some str, Some scr'), s1))))
          else map_option (map_sum id (\<lambda>ws. ((Some (join_words ws), scr), s)))
                 (hyp_words s bpidx))"

section \<open>The invariant of the active sets\<close>

text \<open>
  \<open>step_inv\<close> is what holds of the active sets between two frames: the next active
  list is empty, the active list has no node twice and holds exactly the nodes whose HMM
  is scheduled for the current frame, no HMM is scheduled for a later frame, and the
  frame is not negative. \<open>next_inv cur A B\<close> is what holds while the frame \<open>cur\<close> with the
  active list \<open>A\<close> is processed: the next active list has no node twice and holds
  exactly the nodes scheduled for frame \<open>cur + 1\<close>, no HMM is scheduled later than
  that, the nodes still scheduled for \<open>cur\<close> are in \<open>B\<close>, and no node of \<open>A\<close> is
  scheduled earlier than \<open>cur\<close>. \<open>same_sched\<close> relates two states with the same frame,
  active lists and schedule.
\<close>

definition pnode_frame :: "fsg_search \<Rightarrow> nat \<Rightarrow> int" where
  "pnode_frame s p = hmm_frame (hmm (pnodes s p))"

definition same_sched :: "fsg_search \<Rightarrow> fsg_search \<Rightarrow> bool" where
  "same_sched s t \<longleftrightarrow>
     frame t = frame s \<and> pnode_active t = pnode_active s \<and>
     pnode_active_next t = pnode_active_next s \<and> pnode_frame t = pnode_frame s"

definition next_inv :: "int \<Rightarrow> nat list \<Rightarrow> nat set \<Rightarrow> fsg_search \<Rightarrow> bool" where
  "next_inv cur A B s \<longleftrightarrow>
     frame s = cur \<and> pnode_active s = A \<and> distinct (pnode_active_next s) \<and>
     (\<forall>p. pnode_frame s p = cur + 1 \<longleftrightarrow> p \<in> set (pnode_active_next s)) \<and>
     (\<forall>p. pnode_frame s p \<le> cur + 1) \<and>
     (\<forall>p. pnode_frame s p = cur \<longrightarrow> p \<in> B) \<and>
     (\<forall>p \<in> set A. cur \<le> pnode_frame s p)"

definition step_inv :: "fsg_search \<Rightarrow> bool" where
  "step_inv s \<longleftrightarrow>
     pnode_active_next s = [] \<and> distinct (pnode_active s) \<and>
     (\<forall>p. hmm_frame (hmm (pnodes s p)) = frame s \<longleftrightarrow> p \<in> set (pnode_active s)) \<and>
     (\<forall>p. hmm_frame (hmm (pnodes s p)) \<le> frame s) \<and>
     0 \<le> frame s"

text \<open>
  \<open>step_ready\<close> is a condition under which a frame is processed to its end. There is
  a frame to process, a grammar is selected, the lextree has at least as many nodes as
  there are active ones, and the history has nothing tentative. \<open>nodes_ok\<close>: every
  node has a context bit vector of \<open>ctxt_bvsz\<close> words and a phone id that is a bit
  position of such a vector, and every leaf has a link with a word. \<open>aggregate_ok\<close>:
  what the history commits comes from what was added, that is, every committed entry is
  like a tentative one (\<open>hist_entry_like\<close>): it has its frame, its left context and
  the number of its right-context words.
\<close>

definition nodes_ok :: "fsg_search \<Rightarrow> bool" where
  "nodes_ok s \<longleftrightarrow>
     (\<forall>p. length (bv (ctxt (pnodes s p))) = ctxt_bvsz s \<and>
          0 \<le> ci_ext (pnodes s p) \<and> ci_ext (pnodes s p) < 32 * int (ctxt_bvsz s) \<and>
          (fsg_pnode_leaf (pnodes s p) \<longrightarrow>
             (\<exists>fl. fsg_pnode_fsglink (pnodes s p) = Some fl \<and> 0 \<le> fsg_link_wid fl)))"

definition hist_entry_like :: "fsg_hist_entry \<Rightarrow> fsg_hist_entry \<Rightarrow> bool" where
  "hist_entry_like e e' \<longleftrightarrow>
     fsg_hist_entry_frame e = fsg_hist_entry_frame e' \<and>
     fsg_hist_entry_lc e = fsg_hist_entry_lc e' \<and>
     length (bv (fsg_hist_entry_rc e)) = length (bv (fsg_hist_entry_rc e'))"

definition aggregate_ok :: "fsg_history \<Rightarrow> bool" where
  "aggregate_ok h \<longleftrightarrow>
     (\<forall>es. \<forall>e \<in> set (aggregate h es). \<exists>e' \<in> set es. hist_entry_like e e')"

definition step_ready :: "fsg_search \<Rightarrow> bool" where
  "step_ready s \<longleftrightarrow>
     n_feat_frame (acmod s) \<noteq> 0 \<and> fsg s \<noteq> None \<and>
     (case lextree s of
        None \<Rightarrow> False
      | Some lt \<Rightarrow> int (length (pnode_active s)) \<le> fsg_lextree_n_pnode lt) \<and>
     tentative (history s) = [] \<and> aggregate_ok (history s) \<and> nodes_ok s"

text \<open>
  For the proof that a frame is processed to its end: \<open>entry_ok\<close> is what holds of
  the entries of the current frame, \<open>run_ok\<close> what holds of the decoder while the frame
  is processed, and \<open>same_static\<close> relates two states that differ in the HMMs, the
  active lists, the beams and the counters at most.
\<close>

definition entry_ok :: "fsg_search \<Rightarrow> fsg_hist_entry \<Rightarrow> bool" where
  "entry_ok s e \<longleftrightarrow>
     fsg_hist_entry_frame e = frame s \<and> 0 \<le> fsg_hist_entry_lc e \<and>
     fsg_hist_entry_lc e < 32 * int (ctxt_bvsz s) \<and>
     length (bv (fsg_hist_entry_rc e)) = ctxt_bvsz s"

definition run_ok :: "fsg_search \<Rightarrow> bool" where
  "run_ok s \<longleftrightarrow>
     0 \<le> frame s \<and> fsg s \<noteq> None \<and> lextree s \<noteq> None \<and> nodes_ok s \<and>
     aggregate_ok (history s) \<and>
     (\<forall>e \<in> set (tentative (history s)). entry_ok s e) \<and>
     0 \<le> bpidx_start s \<and>
     (\<forall>i. bpidx_start s \<le> int i \<and> i < length (entries (history s)) \<longrightarrow>
          entry_ok s (entries (history s) ! i))"

definition same_static :: "fsg_search \<Rightarrow> fsg_search \<Rightarrow> bool" where
  "same_static s t \<longleftrightarrow>
     fsg t = fsg s \<and> lextree t = lextree s \<and> dict t = dict s \<and>
     ctxt_bvsz t = ctxt_bvsz s \<and> frame t = frame s \<and> bpidx_start t = bpidx_start s \<and>
     history t = history s \<and>
     (\<forall>p. ctxt (pnodes t p) = ctxt (pnodes s p) \<and> ci_ext (pnodes t p) = ci_ext (pnodes s p) \<and>
          fsg_pnode_leaf (pnodes t p) = fsg_pnode_leaf (pnodes s p) \<and>
          fsg_pnode_fsglink (pnodes t p) = fsg_pnode_fsglink (pnodes s p))"

section \<open>Example states\<close>

text \<open>
  Concrete decoder states on which the statements below are evaluated: the dummy entry
  that \<open>fsg_search_start\<close> puts at index 0, a word exit into a given FSG state, an
  inactive lextree node, and a decoder that holds no grammar and no lextree. Its history
  commits the tentative entries of a frame without their repetitions.
\<close>

definition dummy_entry :: fsg_hist_entry where
  "dummy_entry =
     \<lparr>fsg_hist_entry_fsglink = None, fsg_hist_entry_frame = -1, fsg_hist_entry_score = 0,
      fsg_hist_entry_pred = -1, fsg_hist_entry_lc = 0,
      fsg_hist_entry_rc = \<lparr>bv = [-1]\<rparr>\<rparr>"

definition word_entry :: "int \<Rightarrow> int \<Rightarrow> int \<Rightarrow> fsg_hist_entry" where
  "word_entry to frm scr =
     \<lparr>fsg_hist_entry_fsglink =
        Some \<lparr>fsg_link_from_state = 0, fsg_link_to_state = to, fsg_link_logs2prob = 0,
              fsg_link_wid = 0\<rparr>,
      fsg_hist_entry_frame = frm, fsg_hist_entry_score = scr,
      fsg_hist_entry_pred = 0, fsg_hist_entry_lc = 0,
      fsg_hist_entry_rc = \<lparr>bv = [-1]\<rparr>\<rparr>"

definition idle_pnode :: fsg_pnode where
  "idle_pnode =
     \<lparr>hmm = \<lparr>hmm_in_score = WORST_SCORE, hmm_in_history = -1, hmm_out_score = WORST_SCORE,
             hmm_out_history = -1, hmm_bestscore = WORST_SCORE, hmm_frame = -1\<rparr>,
      logs2prob = 0, ci_ext = 0, ctxt = \<lparr>bv = [-1]\<rparr>, fsg_pnode_leaf = False,
      fsg_pnode_fsglink = None, fsg_pnode_succ = []\<rparr>"

definition idle_search :: fsg_search where
  "idle_search =
     \<lparr>acmod = \<lparr>n_feat_frame = 1, compallsen = True, n_senone_active = 0, sil_ciphone_id = 0\<rparr>,
      dict = \<lparr>dict_to_id = (\<lambda>w. 0), dict_pronlen = (\<lambda>w. 2)\<rparr>,
      maxhmmpf = -1, ctxt_bvsz = 1, hmmctx = (\<lambda>h. h), dag = None,
      fsgs = (\<lambda>name. None), fsg = None, lextree = None,
      pnodes = (\<lambda>p. idle_pnode),
      history = \<lparr>entries = [], tentative = [], aggregate = remdups, history_fsg = None\<rparr>,
      pnode_active = [], pnode_active_next = [],
      beam_orig = -1000, pbeam_orig = -1000, wbeam_orig = -1000, beam_factor = Float32 1 0,
      beam = -1000, pbeam = -1000, wbeam = -1000, frame = -1, final = False, bestpath = False,
      bestscore = 0, bpidx_start = 0, n_hmm_eval = 0, n_sen_eval = 0\<rparr>"

definition with_entries :: "fsg_hist_entry list \<Rightarrow> int \<Rightarrow> fsg_search" where
  "with_entries es frm =
     idle_search\<lparr>history := (history idle_search)\<lparr>entries := es\<rparr>, frame := frm\<rparr>"

text \<open>A history whose newest entry ended in frame 5, searched for an exit in frame 3.\<close>

definition stuck_search :: fsg_search where
  "stuck_search = with_entries [dummy_entry, word_entry 1 5 0] 6"

text \<open>One word exit in frame 0, and the decoder in frame 1.\<close>

definition sentinel_search :: fsg_search where
  "sentinel_search = with_entries [dummy_entry, word_entry 1 0 5] 1"

text \<open>
  A grammar with final state 2 and no null transition, and a history with three exits in
  frame 3, two of them into the final state.
\<close>

definition plain_fsg :: fsg_model where
  "plain_fsg =
     \<lparr>fsg_addr = 1, fsg_model_n_state = 3, fsg_model_start_state = 0,
      fsg_model_final_state = 2, fsg_model_null_trans = (\<lambda>s d. None),
      fsg_model_is_filler = (\<lambda>w. False), fsg_model_word_str = (\<lambda>w. ''word'')\<rparr>"

definition three_exits :: fsg_search where
  "three_exits =
     (with_entries [dummy_entry, word_entry 1 0 5, word_entry 2 3 7, word_entry 2 3 9,
                    word_entry 1 3 20] 4)\<lparr>fsg := Some plain_fsg\<rparr>"

text \<open>
  A grammar with two null transitions out of its start state, to state 1 within the word
  beam and to the final state 2 outside it, and the decoder as \<open>fsg_search_start\<close>
  has it when it calls \<open>fsg_search_null_prop\<close>.
\<close>

definition null_link :: "int \<Rightarrow> int \<Rightarrow> int \<Rightarrow> fsg_link" where
  "null_link a b p =
     \<lparr>fsg_link_from_state = a, fsg_link_to_state = b, fsg_link_logs2prob = p,
      fsg_link_wid = -1\<rparr>"

definition null_fsg :: fsg_model where
  "null_fsg =
     \<lparr>fsg_addr = 2, fsg_model_n_state = 3, fsg_model_start_state = 0,
      fsg_model_final_state = 2,
      fsg_model_null_trans =
        (\<lambda>s d. if s = 0 \<and> d = 1 then Some (null_link 0 1 (-10))
               else if s = 0 \<and> d = 2 then Some (null_link 0 2 (-5000))
               else None),
      fsg_model_is_filler = (\<lambda>w. False), fsg_model_word_str = (\<lambda>w. ''word'')\<rparr>"

definition at_start :: fsg_search where
  "at_start = (with_entries [dummy_entry] (-1))\<lparr>fsg := Some null_fsg\<rparr>"

text \<open>
  A lextree of four nodes: the roots 0 and 1 of state 0, of which root 1 admits no left
  context, the root 2 of state 1, and the leaf 3 under node 0.
\<close>

definition demo_pnodes :: "nat \<Rightarrow> fsg_pnode" where
  "demo_pnodes =
     (\<lambda>p. idle_pnode)
       (0 := idle_pnode\<lparr>logs2prob := -20, ci_ext := 3, fsg_pnode_succ := [3]\<rparr>,
        1 := idle_pnode\<lparr>logs2prob := -5, ci_ext := 4, ctxt := \<lparr>bv = [0]\<rparr>\<rparr>,
        2 := idle_pnode\<lparr>logs2prob := -3, ci_ext := 6\<rparr>,
        3 := idle_pnode\<lparr>logs2prob := -7, ci_ext := 5, fsg_pnode_leaf := True,
               fsg_pnode_fsglink := Some \<lparr>fsg_link_from_state = 0, fsg_link_to_state = 2,
                  fsg_link_logs2prob = -7, fsg_link_wid = 0\<rparr>\<rparr>)"

definition demo_lextree :: fsg_lextree where
  "demo_lextree =
     \<lparr>fsg_lextree_root = (\<lambda>d. if d = 0 then [0, 1] else if d = 1 then [2] else []),
      fsg_lextree_n_pnode = 4\<rparr>"

definition at_start_tree :: fsg_search where
  "at_start_tree = at_start\<lparr>lextree := Some demo_lextree, pnodes := demo_pnodes\<rparr>"

text \<open>
  The leaf 3 with an exit score and its own right contexts, in frame 4. Its word is
  neither a filler nor of one phone.
\<close>

definition leaf_exit :: fsg_search where
  "leaf_exit =
     at_start_tree\<lparr>frame := 4,
       pnodes := demo_pnodes
         (3 := (demo_pnodes 3)\<lparr>hmm := (hmm (demo_pnodes 3))
                  \<lparr>hmm_out_score := -50, hmm_out_history := 0, hmm_frame := 4\<rparr>,
                ctxt := \<lparr>bv = [5]\<rparr>\<rparr>)\<rparr>"

text \<open>
  The same leaf with a dictionary in which every word has one phone. And a decoder in
  frame 3 whose newest entry is a word exit of frame 3 into state 0, committed in this
  frame.
\<close>

definition single_phone_exit :: fsg_search where
  "single_phone_exit = leaf_exit\<lparr>dict := \<lparr>dict_to_id = (\<lambda>w. 0), dict_pronlen = (\<lambda>w. 1)\<rparr>\<rparr>"

definition in_frame :: fsg_search where
  "in_frame =
     (with_entries [dummy_entry, word_entry 0 3 (-7)] 3)
       \<lparr>fsg := Some null_fsg, bpidx_start := 1\<rparr>"

text \<open>
  A decoder after \<open>fsg_search_init\<close>: the grammar with the null transitions is
  selected and the lextree of four nodes is built for it. Then the states that
  \<open>fsg_search_start\<close> and, after it, \<open>fsg_search_finish\<close> return.
\<close>

definition demo_idle :: fsg_search where
  "demo_idle =
     idle_search\<lparr>fsg := Some null_fsg, lextree := Some demo_lextree, pnodes := demo_pnodes,
                  history := (history idle_search)\<lparr>history_fsg := Some null_fsg\<rparr>\<rparr>"

definition after_start :: fsg_search where
  "after_start = snd (projr (fsg_search_start demo_idle))"

definition after_finish :: fsg_search where
  "after_finish = snd (projr (fsg_search_finish after_start))"

text \<open>
  The decoder after the start with a beam so narrow that the worse of its two active
  HMMs does not survive the first frame.
\<close>

definition narrow_beam :: fsg_search where
  "narrow_beam = after_start\<lparr>beam_orig := -5\<rparr>"

text \<open>What the senone scores of the example frame make of one HMM.\<close>

definition demo_senscr :: "hmm \<Rightarrow> hmm" where
  "demo_senscr h =
     h\<lparr>hmm_bestscore := hmm_in_score h, hmm_out_score := hmm_in_score h - 30,
       hmm_out_history := hmm_in_history h\<rparr>"

text \<open>
  The decoder after the first frame: the leaf 3 has been entered from node 0, and its
  word exit falls in the second frame.
\<close>

definition frame_one :: fsg_search where
  "frame_one = snd (projr (fsg_search_step after_start demo_senscr (acmod after_start)))"

text \<open>A construction of lattices, and a registry of two grammars.\<close>

definition demo_build :: "fsg_search \<Rightarrow> ps_lattice option" where
  "demo_build s = Some \<lparr>lat_addr = 7, n_frames = 0, lat_build = nat (frame s)\<rparr>"

definition two_fsgs :: fsg_search where
  "two_fsgs =
     demo_idle\<lparr>fsgs := (\<lambda>name. if name = ''a'' then Some null_fsg
                              else if name = ''b'' then Some plain_fsg else None)\<rparr>"

text \<open>
  The decoder after the start, with a cap of one HMM per frame on its two active HMMs,
  and the evaluation of the active HMMs in \<open>k\<close> frames in a row. \<open>reduce_factor\<close> is
  what one such evaluation over the cap makes of the beam factor, \<open>crowd\<close> what the
  evaluation leaves as it is in this decoder.
\<close>

fun eval_frames :: "nat \<Rightarrow> fsg_search \<Rightarrow> fsg_error + fsg_search" where
  "eval_frames 0 s = Inr s"
| "eval_frames (Suc k) s =
     (case fsg_search_hmm_eval s of
        Inl e \<Rightarrow> Inl e
      | Inr s' \<Rightarrow> eval_frames k s')"

definition crowded :: fsg_search where
  "crowded = after_start\<lparr>maxhmmpf := 1\<rparr>"

definition reduce_factor :: "float32 \<Rightarrow> float32" where
  "reduce_factor f = (if f32_gt_0_1 f then f32_mul f f32_0_9 else f)"

fun reduce_frames :: "nat \<Rightarrow> float32 \<Rightarrow> float32" where
  "reduce_frames 0 f = f"
| "reduce_frames (Suc k) f = reduce_frames k (reduce_factor f)"

definition crowd :: "fsg_search \<Rightarrow> bool" where
  "crowd s \<longleftrightarrow>
     pnode_active s = [2, 0] \<and> frame s = 0 \<and> pnode_frame s 2 = 0 \<and> pnode_frame s 0 = 0 \<and>
     lextree s = Some demo_lextree \<and> maxhmmpf s = 1"

section \<open>Verified properties\<close>

subsection \<open>Back-pointer search\<close>

lemma best_step_pair:
  "best_step s fin i (bs, bh) =
     (if exit_score s i > bs \<and> exit_admitted s fin i then (exit_score s i, int i) else (bs, bh))"
  by (simp add: best_step_def)

lemma find_exit_scan_returns:
  assumes "find_exit_scan h frame_idx frm bpidx = Some r"
  shows "bpidx \<le> 0 \<or> fsg_hist_entry_frame (fsg_history_entry_get h bpidx) \<le> frame_idx"
  by (rule find_exit_scan.raw_induct
        [where P = "\<lambda>h fi frm b r. b \<le> 0 \<or> fsg_hist_entry_frame (fsg_history_entry_get h b) \<le> fi",
         OF _ assms])
     (fastforce split: if_splits)

lemma find_exit_best_fold:
  assumes "k < length (entries (history s))"
    and "fin \<Longrightarrow> fsg s \<noteq> None \<and>
           (\<forall>i \<in> set (takeWhile (\<lambda>i. fsg_hist_entry_frame (entries (history s) ! i) = F) (rev [0..<Suc k])).
              fsg_hist_entry_fsglink (entries (history s) ! i) \<noteq> None)"
  shows "find_exit_best s fin F (fsg_hist_entry_frame (entries (history s) ! k))
           (entries (history s) ! k) (int k) bs bh =
         Inr (fold (best_step s fin)
                (takeWhile (\<lambda>i. fsg_hist_entry_frame (entries (history s) ! i) = F) (rev [0..<Suc k]))
                (bs, bh))"
  using assms
proof (induction k arbitrary: bs bh)
  case 0
  then show ?case
    by (subst find_exit_best.simps)
       (auto simp: best_step_pair exit_score_def exit_admitted_def Let_def)
next
  case (Suc k)
  let ?es = "entries (history s)"
  show ?case
  proof (cases "fsg_hist_entry_frame (?es ! Suc k) = F")
    case False
    then show ?thesis by (subst find_exit_best.simps) simp
  next
    case True
    have step: "find_exit_best s fin F (fsg_hist_entry_frame (?es ! k)) (?es ! k) (int k) bs' bh' =
         Inr (fold (best_step s fin)
                (takeWhile (\<lambda>i. fsg_hist_entry_frame (?es ! i) = F) (rev [0..<Suc k]))
                (bs', bh'))" for bs' bh'
      using Suc.prems True by (intro Suc.IH) auto
    have nonnull: "fin \<Longrightarrow> fsg s \<noteq> None \<and> fsg_hist_entry_fsglink (?es ! Suc k) \<noteq> None"
      using Suc.prems(2) True by simp
    have idx: "nat (int k) = k" "int (Suc k) - 1 = int k" by simp_all
    show ?thesis
      using True nonnull step
      by (subst find_exit_best.simps)
         (auto simp: best_step_pair exit_score_def exit_admitted_def Let_def
                     fsg_history_entry_get_def idx)
  qed
qed

lemma fold_best_step:
  "fold (best_step s fin) xs (bs, bh) = (bs', bh') \<Longrightarrow>
     bs \<le> bs' \<and>
     (\<forall>i \<in> set xs. exit_admitted s fin i \<longrightarrow> exit_score s i \<le> bs') \<and>
     (if \<exists>i \<in> set xs. exit_admitted s fin i \<and> bs < exit_score s i
      then \<exists>r \<in> set xs. bh' = int r \<and> exit_admitted s fin r \<and> bs' = exit_score s r
      else bs' = bs \<and> bh' = bh)"
proof (induction xs arbitrary: bs bh)
  case Nil
  then show ?case by simp
next
  case (Cons x xs)
  show ?case
  proof (cases "exit_score s x > bs \<and> exit_admitted s fin x")
    case True
    with Cons.prems have "fold (best_step s fin) xs (exit_score s x, int x) = (bs', bh')"
      by (simp add: best_step_pair)
    from Cons.IH [OF this] True show ?thesis
      by (auto split: if_splits)
  next
    case False
    with Cons.prems have "fold (best_step s fin) xs (bs, bh) = (bs', bh')"
      by (simp add: best_step_pair)
    from Cons.IH [OF this] False show ?thesis
      by (auto split: if_splits)
  qed
qed


lemma find_exit_scan_stop:
  "bpidx \<le> 0 \<Longrightarrow> find_exit_scan h frame_idx frm bpidx = Some (bpidx, frm)"
  by (subst find_exit_scan.simps) simp

lemma find_exit_scan_newest:
  "0 < bpidx \<Longrightarrow> fsg_hist_entry_frame (fsg_history_entry_get h bpidx) \<le> frame_idx \<Longrightarrow>
     find_exit_scan h frame_idx frm bpidx =
       Some (bpidx, fsg_hist_entry_frame (fsg_history_entry_get h bpidx))"
  by (subst find_exit_scan.simps) simp

lemma find_exit_scan_stuck:
  assumes "0 < bpidx"
    and "frame_idx < fsg_hist_entry_frame (fsg_history_entry_get h bpidx)"
  shows "find_exit_scan h frame_idx frm bpidx = None"
proof (cases "find_exit_scan h frame_idx frm bpidx")
  case None
  then show ?thesis .
next
  case (Some r)
  from find_exit_scan_returns [OF Some] assms show ?thesis by simp
qed

lemma takeWhile_rev_upt:
  "i \<in> set (takeWhile P (rev [0..<n])) \<longleftrightarrow> i < n \<and> (\<forall>j. i \<le> j \<and> j < n \<longrightarrow> P j)"
proof (induction n)
  case 0
  then show ?case by simp
next
  case (Suc n)
  show ?case
  proof (cases "P n")
    case False
    have "\<not> (\<forall>j. i \<le> j \<and> j < Suc n \<longrightarrow> P j)" if "i < Suc n"
      using False that by (auto intro!: exI [of _ n])
    with False show ?thesis by auto
  next
    case True
    have "(\<forall>j. i \<le> j \<and> j < Suc n \<longrightarrow> P j) \<longleftrightarrow> (\<forall>j. i \<le> j \<and> j < n \<longrightarrow> P j)"
      using True by (auto simp: less_Suc_eq)
    with True Suc.IH show ?thesis by (auto simp: less_Suc_eq)
  qed
qed

lemma find_exit_run_sorted:
  assumes "sorted (map fsg_hist_entry_frame es)"
  shows "set (find_exit_run es) =
           {i. i < length es \<and> fsg_hist_entry_frame (es ! i) = fsg_hist_entry_frame (last es)}"
proof -
  have "fsg_hist_entry_frame (es ! j) = fsg_hist_entry_frame (last es)"
    if "i \<le> j" "j < length es" "fsg_hist_entry_frame (es ! i) = fsg_hist_entry_frame (last es)"
    for i j
  proof -
    from that have ne: "es \<noteq> []" by auto
    have "fsg_hist_entry_frame (es ! i) \<le> fsg_hist_entry_frame (es ! j)"
      using assms that(1,2) by (auto simp: sorted_iff_nth_mono dest!: spec [of _ i] spec [of _ j])
    moreover have "fsg_hist_entry_frame (es ! j) \<le> fsg_hist_entry_frame (es ! (length es - 1))"
      using assms that(2)
      by (auto simp: sorted_iff_nth_mono dest!: spec [of _ j] spec [of _ "length es - 1"])
    ultimately show ?thesis using that(3) ne by (simp add: last_conv_nth)
  qed
  then show ?thesis
    unfolding find_exit_run_def by (auto simp: takeWhile_rev_upt)
qed


lemma find_exit_few_entries:
  "length (entries (history s)) \<le> 1 \<Longrightarrow>
     fsg_search_find_exit s frame_idx fin =
       Some (Inr (int (length (entries (history s))) - 1, None))"
  by (simp add: fsg_search_find_exit_def fsg_history_n_entries_def find_exit_scan_stop)

text \<open>
  C1, as the code has it. Let the history hold more than one entry and let the newest
  entry have a frame at most \<open>frame_idx\<close>, where \<open>frame_idx = -1\<close> stands for
  \<open>frame - 1\<close>; with \<open>final\<close> set, let the grammar be selected and the visited
  entries carry a link. Then \<open>fsg_search_find_exit\<close> returns: the search frame is the
  frame of the newest entry, the entries looked at are the run of entries of that frame
  that ends at the newest entry (all the entries of that frame when the frames of the
  history do not decrease, \<open>find_exit_run_sorted\<close>), and the result is the index of an
  entry of the run that passes the final-state test (when \<open>final\<close>) with a score above
  \<open>INT_MIN\<close> and maximal among the entries of the run that pass the test, together
  with that score; the result is \<open>-1\<close> when no entry of the run qualifies. (A history
  of at most one entry gives the index of its last entry, \<open>0\<close> or \<open>-1\<close>:
  \<open>find_exit_few_entries\<close>.)
\<close>

theorem find_exit_newest_frame:
  assumes "1 < length (entries (history s))"
    and "fsg_hist_entry_frame (last (entries (history s)))
           \<le> (if frame_idx = -1 then frame s - 1 else frame_idx)"
    and "fin \<longrightarrow> fsg s \<noteq> None \<and>
           (\<forall>i \<in> set (find_exit_run (entries (history s))).
              fsg_hist_entry_fsglink (entries (history s) ! i) \<noteq> None)"
  shows "if \<exists>i \<in> set (find_exit_run (entries (history s))).
              exit_admitted s fin i \<and> INT_MIN < exit_score s i
         then \<exists>r \<in> set (find_exit_run (entries (history s))).
                exit_admitted s fin r \<and>
                fsg_search_find_exit s frame_idx fin =
                  Some (Inr (int r, Some (exit_score s r))) \<and>
                (\<forall>i \<in> set (find_exit_run (entries (history s))).
                   exit_admitted s fin i \<longrightarrow> exit_score s i \<le> exit_score s r)
         else fsg_search_find_exit s frame_idx fin = Some (Inr (-1, None))"
proof -
  let ?es = "entries (history s)"
  let ?n = "length ?es"
  let ?fi = "if frame_idx = -1 then frame s - 1 else frame_idx"
  let ?run = "find_exit_run ?es"
  have h: "1 < ?n \<and> fsg_hist_entry_frame (last ?es) \<le> ?fi \<and>
    (fin \<longrightarrow> fsg s \<noteq> None \<and> (\<forall>i \<in> set ?run. fsg_hist_entry_fsglink (?es ! i) \<noteq> None))"
    using assms by simp
  then have n: "1 < ?n" and ne: "?es \<noteq> []" by auto
  have last: "last ?es = ?es ! (?n - 1)"
    using ne by (rule last_conv_nth)
  have get: "fsg_history_entry_get (history s) (int ?n - 1) = ?es ! (?n - 1)"
    using n by (simp add: fsg_history_entry_get_def nat_diff_distrib)
  have scan: "find_exit_scan (history s) ?fi ?fi (int ?n - 1) =
      Some (int ?n - 1, fsg_hist_entry_frame (last ?es))"
    using n h find_exit_scan_newest [of "int ?n - 1" "history s" ?fi ?fi]
    by (simp add: get last)
  have run: "?run = takeWhile (\<lambda>i. fsg_hist_entry_frame (?es ! i) = fsg_hist_entry_frame (last ?es))
                      (rev [0..<Suc (?n - 1)])"
  proof -
    have "Suc (?n - 1) = ?n" using n by simp
    then show ?thesis by (simp only: find_exit_run_def)
  qed
  obtain bs bh where fold: "fold (best_step s fin) ?run (INT_MIN, -1) = (bs, bh)"
    by (cases "fold (best_step s fin) ?run (INT_MIN, -1)")
  have inrange: "?n - 1 < ?n" using n by simp
  have nonnull: "fin \<Longrightarrow> fsg s \<noteq> None \<and>
      (\<forall>i \<in> set (takeWhile (\<lambda>i. fsg_hist_entry_frame (?es ! i) = fsg_hist_entry_frame (last ?es))
                      (rev [0..<Suc (?n - 1)])).
         fsg_hist_entry_fsglink (?es ! i) \<noteq> None)"
    using h unfolding run [symmetric] by simp
  have idx: "int (?n - 1) = int ?n - 1" using n by simp
  have "find_exit_best s fin (fsg_hist_entry_frame (last ?es))
      (fsg_hist_entry_frame (?es ! (?n - 1))) (?es ! (?n - 1)) (int (?n - 1)) INT_MIN (-1) =
      Inr (fold (best_step s fin)
            (takeWhile (\<lambda>i. fsg_hist_entry_frame (?es ! i) = fsg_hist_entry_frame (last ?es))
               (rev [0..<Suc (?n - 1)]))
            (INT_MIN, -1))"
    by (rule find_exit_best_fold [OF inrange nonnull])
  then have best: "find_exit_best s fin (fsg_hist_entry_frame (last ?es))
      (fsg_hist_entry_frame (last ?es)) (?es ! (?n - 1)) (int ?n - 1) INT_MIN (-1) = Inr (bs, bh)"
    by (simp only: run [symmetric] last [symmetric] fold idx)
  have res: "fsg_search_find_exit s frame_idx fin =
      Some (if bh = -1 then Inr (-1, None) else Inr (bh, Some bs))"
    using n scan best
    by (simp add: fsg_search_find_exit_def fsg_history_n_entries_def Let_def get)
  note fb = fold_best_step [OF fold]
  show ?thesis
  proof (cases "\<exists>i \<in> set ?run. exit_admitted s fin i \<and> INT_MIN < exit_score s i")
    case True
    with fb obtain r where r: "r \<in> set ?run" "bh = int r" "exit_admitted s fin r"
      "bs = exit_score s r"
      by auto
    from fb r have "\<forall>i \<in> set ?run. exit_admitted s fin i \<longrightarrow> exit_score s i \<le> exit_score s r"
      by simp
    with True r res show ?thesis by auto
  next
    case False
    with fb have "bh = -1" by auto
    with False res show ?thesis by simp
  qed
qed

theorem find_exit_newest_frame_witness:
  "1 < length (entries (history three_exits)) \<and>
   fsg_hist_entry_frame (last (entries (history three_exits))) \<le> 4 \<and>
   find_exit_run (entries (history three_exits)) = [4, 3, 2] \<and>
   fsg_search_find_exit three_exits 4 True = Some (Inr (3, Some 9))"
  using find_exit_newest_frame [of three_exits 4 True]
  by (simp add: three_exits_def with_entries_def idle_search_def dummy_entry_def
        word_entry_def plain_fsg_def find_exit_run_def exit_admitted_def exit_score_def
        INT_MIN_def upt_rec [of _ "numeral _"] split: if_splits)

text \<open>
  C1, as stated, at \<open>frame_idx = -1\<close> in frame 1: the returned exit is entry 1, whose
  frame 0 is not at most \<open>frame_idx\<close>.
\<close>

theorem find_exit_sentinel_counterexample:
  "fsg_search_find_exit sentinel_search (-1) False = Some (Inr (1, Some 5)) \<and>
   \<not> fsg_hist_entry_frame (entries (history sentinel_search) ! 1) \<le> -1"
  by (simp add: fsg_search_find_exit_def sentinel_search_def with_entries_def idle_search_def
        dummy_entry_def word_entry_def fsg_history_n_entries_def fsg_history_entry_get_def
        find_exit_scan_newest find_exit_best.simps INT_MIN_def)


text \<open>
  C10: with two entries, the newest of frame 5, and \<open>frame_idx = 3\<close>, the first loop of
  \<open>fsg_search_find_exit\<close> never returns.
\<close>

theorem find_exit_scan_never_returns:
  "fsg_search_find_exit stuck_search 3 False = None"
  by (simp add: fsg_search_find_exit_def stuck_search_def with_entries_def idle_search_def
        dummy_entry_def word_entry_def fsg_history_n_entries_def fsg_history_entry_get_def
        find_exit_scan_stuck)

subsection \<open>Null transitions\<close>

lemma add_entry_keeps: "\<exists>ys. entries (add_entry e h) = entries h @ ys"
  by (simp add: add_entry_def fsg_history_entry_add_def Let_def)

lemma fold_add_entry_keeps: "\<exists>ys. entries (fold add_entry es h) = entries h @ ys"
proof (induction es arbitrary: h)
  case Nil
  show ?case by simp
next
  case (Cons e es)
  from add_entry_keeps obtain ys where "entries (add_entry e h) = entries h @ ys" by blast
  moreover from Cons.IH obtain zs where
    "entries (fold add_entry es (add_entry e h)) = entries (add_entry e h) @ zs"
    by blast
  ultimately show ?case by simp
qed

lemma null_prop_states_adds:
  "null_prop_states g thresh e b st ds h =
     fold add_entry
       (List.map_filter
          (\<lambda>d. case fsg_model_null_trans g st d of
                 None \<Rightarrow> None
               | Some l \<Rightarrow>
                   if fsg_hist_entry_score e + fsg_link_logs2prob l \<ge> thresh
                   then Some \<lparr>fsg_hist_entry_fsglink = Some l,
                              fsg_hist_entry_frame = fsg_hist_entry_frame e,
                              fsg_hist_entry_score = fsg_hist_entry_score e + fsg_link_logs2prob l,
                              fsg_hist_entry_pred = b,
                              fsg_hist_entry_lc = fsg_hist_entry_lc e,
                              fsg_hist_entry_rc = fsg_hist_entry_rc e\<rparr>
                   else None) ds) h"
proof (induction ds arbitrary: h)
  case Nil
  then show ?case by (simp add: List.map_filter_simps)
next
  case (Cons d ds)
  show ?case
    by (cases "fsg_model_null_trans g st d")
       (simp_all add: Cons.IH List.map_filter_simps add_entry_def Let_def)
qed

lemma null_prop_entries_adds:
  assumes "\<forall>b \<in> set bs. 0 \<le> b \<and> b < int (length (entries (history s)))"
    and "entries h = entries (history s) @ ys"
  shows "null_prop_entries (Some g) (bestscore s + wbeam s) bs h =
     Inr (fold add_entry
            (concat (map (\<lambda>b. List.map_filter (null_entry s g b)
                               [0 .. fsg_model_n_state g - 1]) bs)) h)"
  using assms
proof (induction bs arbitrary: h ys)
  case Nil
  then show ?case by simp
next
  case (Cons b bs)
  from Cons.prems have b: "0 \<le> b" "nat b < length (entries (history s))" by auto
  then have get: "fsg_history_entry_get h b = entries (history s) ! nat b"
    using Cons.prems(2) by (simp add: fsg_history_entry_get_def nth_append)
  let ?es = "List.map_filter (null_entry s g b) [0 .. fsg_model_n_state g - 1]"
  have one: "null_prop_states g (bestscore s + wbeam s) (entries (history s) ! nat b) b
               (hist_entry_dest g (entries (history s) ! nat b))
               [0 .. fsg_model_n_state g - 1] h = fold add_entry ?es h"
    by (simp add: null_prop_states_adds null_entry_def [abs_def] Let_def)
  from fold_add_entry_keeps obtain zs where
    "entries (fold add_entry ?es h) = entries h @ zs"
    by blast
  with Cons.prems(2) have "entries (fold add_entry ?es h) = entries (history s) @ (ys @ zs)"
    by simp
  from Cons.IH [OF _ this] Cons.prems(1)
  have "null_prop_entries (Some g) (bestscore s + wbeam s) bs (fold add_entry ?es h) =
     Inr (fold add_entry
            (concat (map (\<lambda>b. List.map_filter (null_entry s g b)
                               [0 .. fsg_model_n_state g - 1]) bs))
            (fold add_entry ?es h))"
    by simp
  then show ?case
    using b get one by (simp add: hist_entry_dest_def Let_def)
qed

text \<open>
  C4: with a grammar selected, \<open>fsg_search_null_prop\<close> returns, and what it does is
  to add to the history, for every permanent entry \<open>e\<close> of index \<open>b\<close> from
  \<open>bpidx_start\<close> up and every state \<open>d\<close> in turn, the entry \<open>null_entry s g b d\<close>
  with \<open>fsg_history_entry_add\<close>; it changes nothing else. That entry exists if and only
  if there is a null transition \<open>l\<close> from the destination state of \<open>e\<close>
  (\<open>fl.to_state\<close>, or the start state when \<open>e\<close> has no link) to \<open>d\<close> with
  \<open>e.score + l.logs2prob \<ge> bestscore + wbeam\<close>; it has the frame, \<open>lc\<close> and \<open>rc\<close>
  of \<open>e\<close>, that score, the link \<open>l\<close> and \<open>pred = b\<close>. What becomes of an added entry
  is the business of the history: an entry of the current frame is tentative until the
  next \<open>fsg_history_end_frame\<close>.
\<close>

theorem null_prop_adds:
  assumes "fsg s = Some g" and "0 \<le> bpidx_start s"
  shows "fsg_search_null_prop s =
     Inr (s\<lparr>history := fold add_entry
        (concat (map (\<lambda>b. List.map_filter (null_entry s g b)
                           [0 .. fsg_model_n_state g - 1])
                 [bpidx_start s .. fsg_history_n_entries (history s) - 1]))
        (history s)\<rparr>) \<and>
   (\<forall>b d e'. null_entry s g b d = Some e' \<longleftrightarrow>
      (\<exists>l. fsg_model_null_trans g (hist_entry_dest g (entries (history s) ! nat b)) d = Some l \<and>
           fsg_hist_entry_score (entries (history s) ! nat b) + fsg_link_logs2prob l
             \<ge> bestscore s + wbeam s \<and>
           e' = \<lparr>fsg_hist_entry_fsglink = Some l,
                  fsg_hist_entry_frame = fsg_hist_entry_frame (entries (history s) ! nat b),
                  fsg_hist_entry_score =
                    fsg_hist_entry_score (entries (history s) ! nat b) + fsg_link_logs2prob l,
                  fsg_hist_entry_pred = b,
                  fsg_hist_entry_lc = fsg_hist_entry_lc (entries (history s) ! nat b),
                  fsg_hist_entry_rc = fsg_hist_entry_rc (entries (history s) ! nat b)\<rparr>))"
proof -
  have "\<forall>b \<in> set [bpidx_start s .. fsg_history_n_entries (history s) - 1].
          0 \<le> b \<and> b < int (length (entries (history s)))"
    using assms(2) by (auto simp: fsg_history_n_entries_def)
  from null_prop_entries_adds [OF this, of "history s" "[]" g] assms(1)
  have run: "fsg_search_null_prop s =
     Inr (s\<lparr>history := fold add_entry
        (concat (map (\<lambda>b. List.map_filter (null_entry s g b)
                           [0 .. fsg_model_n_state g - 1])
                 [bpidx_start s .. fsg_history_n_entries (history s) - 1]))
        (history s)\<rparr>)"
    by (simp add: fsg_search_null_prop_def Let_def)
  have "null_entry s g b d = Some e' \<longleftrightarrow>
      (\<exists>l. fsg_model_null_trans g (hist_entry_dest g (entries (history s) ! nat b)) d = Some l \<and>
           fsg_hist_entry_score (entries (history s) ! nat b) + fsg_link_logs2prob l
             \<ge> bestscore s + wbeam s \<and>
           e' = \<lparr>fsg_hist_entry_fsglink = Some l,
                  fsg_hist_entry_frame = fsg_hist_entry_frame (entries (history s) ! nat b),
                  fsg_hist_entry_score =
                    fsg_hist_entry_score (entries (history s) ! nat b) + fsg_link_logs2prob l,
                  fsg_hist_entry_pred = b,
                  fsg_hist_entry_lc = fsg_hist_entry_lc (entries (history s) ! nat b),
                  fsg_hist_entry_rc = fsg_hist_entry_rc (entries (history s) ! nat b)\<rparr>)"
    for b d e'
    by (auto simp: null_entry_def Let_def split: option.splits)
  with run show ?thesis by blast
qed

theorem null_prop_adds_witness:
  "fsg at_start = Some null_fsg \<and> 0 \<le> bpidx_start at_start \<and>
   fsg_search_null_prop at_start =
     Inr (at_start\<lparr>history := (history at_start)\<lparr>entries :=
       [dummy_entry,
        \<lparr>fsg_hist_entry_fsglink = Some (null_link 0 1 (-10)), fsg_hist_entry_frame = -1,
         fsg_hist_entry_score = -10, fsg_hist_entry_pred = 0,
         fsg_hist_entry_lc = 0, fsg_hist_entry_rc = \<lparr>bv = [-1]\<rparr>\<rparr>]\<rparr>\<rparr>) \<and>
   fsg in_frame = Some null_fsg \<and> 0 \<le> bpidx_start in_frame \<and>
   fsg_search_null_prop in_frame =
     Inr (in_frame\<lparr>history := (history in_frame)\<lparr>tentative :=
       [\<lparr>fsg_hist_entry_fsglink = Some (null_link 0 1 (-10)), fsg_hist_entry_frame = 3,
         fsg_hist_entry_score = -17, fsg_hist_entry_pred = 1,
         fsg_hist_entry_lc = 0, fsg_hist_entry_rc = \<lparr>bv = [-1]\<rparr>\<rparr>]\<rparr>\<rparr>)"
proof -
  have g: "fsg at_start = Some null_fsg" and b: "0 \<le> bpidx_start at_start"
    by (simp_all add: at_start_def with_entries_def idle_search_def)
  have g': "fsg in_frame = Some null_fsg" and b': "0 \<le> bpidx_start in_frame"
    by (simp_all add: in_frame_def with_entries_def idle_search_def)
  have "concat (map (\<lambda>b. List.map_filter (null_entry at_start null_fsg b)
                           [0 .. fsg_model_n_state null_fsg - 1])
                 [bpidx_start at_start .. fsg_history_n_entries (history at_start) - 1]) =
        [\<lparr>fsg_hist_entry_fsglink = Some (null_link 0 1 (-10)), fsg_hist_entry_frame = -1,
          fsg_hist_entry_score = -10, fsg_hist_entry_pred = 0,
          fsg_hist_entry_lc = 0, fsg_hist_entry_rc = \<lparr>bv = [-1]\<rparr>\<rparr>]"
    by (simp add: at_start_def with_entries_def idle_search_def null_fsg_def null_link_def
          fsg_history_n_entries_def null_entry_def hist_entry_dest_def dummy_entry_def
          List.map_filter_simps upto.simps Let_def)
  with null_prop_adds [OF g b, THEN conjunct1]
  have one: "fsg_search_null_prop at_start =
     Inr (at_start\<lparr>history := (history at_start)\<lparr>entries :=
       [dummy_entry,
        \<lparr>fsg_hist_entry_fsglink = Some (null_link 0 1 (-10)), fsg_hist_entry_frame = -1,
         fsg_hist_entry_score = -10, fsg_hist_entry_pred = 0,
         fsg_hist_entry_lc = 0, fsg_hist_entry_rc = \<lparr>bv = [-1]\<rparr>\<rparr>]\<rparr>\<rparr>)"
    by (simp add: add_entry_def fsg_history_entry_add_def at_start_def with_entries_def
          idle_search_def)
  have "concat (map (\<lambda>b. List.map_filter (null_entry in_frame null_fsg b)
                           [0 .. fsg_model_n_state null_fsg - 1])
                 [bpidx_start in_frame .. fsg_history_n_entries (history in_frame) - 1]) =
        [\<lparr>fsg_hist_entry_fsglink = Some (null_link 0 1 (-10)), fsg_hist_entry_frame = 3,
          fsg_hist_entry_score = -17, fsg_hist_entry_pred = 1,
          fsg_hist_entry_lc = 0, fsg_hist_entry_rc = \<lparr>bv = [-1]\<rparr>\<rparr>]"
    by (simp add: in_frame_def with_entries_def idle_search_def null_fsg_def null_link_def
          fsg_history_n_entries_def null_entry_def hist_entry_dest_def dummy_entry_def
          word_entry_def List.map_filter_simps upto.simps Let_def)
  with null_prop_adds [OF g' b', THEN conjunct1]
  have two: "fsg_search_null_prop in_frame =
     Inr (in_frame\<lparr>history := (history in_frame)\<lparr>tentative :=
       [\<lparr>fsg_hist_entry_fsglink = Some (null_link 0 1 (-10)), fsg_hist_entry_frame = 3,
         fsg_hist_entry_score = -17, fsg_hist_entry_pred = 1,
         fsg_hist_entry_lc = 0, fsg_hist_entry_rc = \<lparr>bv = [-1]\<rparr>\<rparr>]\<rparr>\<rparr>)"
    by (simp add: add_entry_def fsg_history_entry_add_def in_frame_def with_entries_def
          idle_search_def)
  from g b one g' b' two show ?thesis by simp
qed

subsection \<open>Cross-word transitions\<close>

lemma wt_frame_refl: "wt_frame s (s, [])"
  by (simp add: wt_frame_def)

lemma word_trans_root_calls:
  assumes "word_trans_root thresh nf (fsg_history_entry_get (history s) b) b root (t, tr) = Inr (t', tr')"
    and "wt_frame s (t, tr)"
  shows "wt_frame s (t', tr') \<and> (\<forall>c \<in> set tr'. c \<in> set tr \<or> wt_call_ok s thresh nf b c)"
  using assms
  by (auto simp: word_trans_root_def activate_pnode_def wt_frame_def wt_call_ok_def Let_def
           hmm_enter_def split: sum.splits if_splits)

lemma word_trans_roots_calls:
  assumes "word_trans_roots thresh nf (fsg_history_entry_get (history s) b) b roots (t, tr) = Inr (t', tr')"
    and "wt_frame s (t, tr)"
  shows "wt_frame s (t', tr') \<and> (\<forall>c \<in> set tr'. c \<in> set tr \<or> wt_call_ok s thresh nf b c)"
  using assms
proof (induction roots arbitrary: t tr)
  case Nil
  then show ?case by simp
next
  case (Cons root roots)
  from Cons.prems(1) obtain t1 tr1 where
    one: "word_trans_root thresh nf (fsg_history_entry_get (history s) b) b root (t, tr) = Inr (t1, tr1)"
    and rest: "word_trans_roots thresh nf (fsg_history_entry_get (history s) b) b roots (t1, tr1) = Inr (t', tr')"
    by (auto split: sum.splits)
  from word_trans_root_calls [OF one Cons.prems(2)]
  have f1: "wt_frame s (t1, tr1)" and c1: "\<forall>c \<in> set tr1. c \<in> set tr \<or> wt_call_ok s thresh nf b c"
    by auto
  from Cons.IH [OF rest f1] c1 show ?case by blast
qed

lemma word_trans_entry_calls:
  assumes "word_trans_entry thresh nf b (t, tr) = Inr (t', tr')"
    and "wt_frame s (t, tr)"
  shows "wt_frame s (t', tr') \<and> 0 \<le> b \<and> (\<forall>c \<in> set tr'. c \<in> set tr \<or> wt_call_ok s thresh nf b c)"
proof -
  from assms(2) have h: "history t = history s" by (simp add: wt_frame_def Let_def)
  from assms(1) obtain roots where
    "word_trans_roots thresh nf (fsg_history_entry_get (history s) b) b roots (t, tr) = Inr (t', tr')"
    and "0 \<le> b"
    by (auto simp: word_trans_entry_def Let_def h split: sum.splits if_splits option.splits)
  with word_trans_roots_calls [OF _ assms(2)] show ?thesis by blast
qed

lemma word_trans_entries_calls:
  assumes "word_trans_entries thresh nf bs (t, tr) = Inr (t', tr')"
    and "wt_frame s (t, tr)"
  shows "wt_frame s (t', tr') \<and>
         (\<forall>c \<in> set tr'. c \<in> set tr \<or> (\<exists>b \<in> set bs. 0 \<le> b \<and> wt_call_ok s thresh nf b c))"
  using assms
proof (induction bs arbitrary: t tr)
  case Nil
  then show ?case by simp
next
  case (Cons b bs)
  from Cons.prems(1) obtain t1 tr1 where
    one: "word_trans_entry thresh nf b (t, tr) = Inr (t1, tr1)"
    and rest: "word_trans_entries thresh nf bs (t1, tr1) = Inr (t', tr')"
    by (auto split: sum.splits)
  from word_trans_entry_calls [OF one Cons.prems(2)]
  have f1: "wt_frame s (t1, tr1)" and b: "0 \<le> b"
    and c1: "\<forall>c \<in> set tr1. c \<in> set tr \<or> wt_call_ok s thresh nf b c"
    by auto
  from Cons.IH [OF rest f1] have
    "\<forall>c \<in> set tr'. c \<in> set tr1 \<or> (\<exists>b \<in> set bs. 0 \<le> b \<and> wt_call_ok s thresh nf b c)"
    by simp
  with c1 b Cons.IH [OF rest f1] show ?case by (auto simp: Ball_def)
qed

text \<open>
  C3: when \<open>fsg_search_word_trans\<close> returns, every lextree node that it changed has a
  call of \<open>hmm_enter\<close>, and every call of \<open>hmm_enter\<close> it made comes from a history
  entry \<open>e\<close> of an index from \<open>bpidx_start\<close> up such that the bitset \<open>ctxt\<close> of the
  root contains \<open>e.lc\<close>, the bitset \<open>e.rc\<close> contains \<open>ci_ext\<close> of the root, and the
  entering score \<open>e.score + root.logs2prob\<close> is at least \<open>bestscore + beam\<close> and
  greater than the entry score the HMM of the root had at the call; the call enters the
  root for the next frame with the index of \<open>e\<close> as history.
\<close>

theorem word_trans_admissible:
  assumes "fsg_search_word_trans s = Inr (s', calls)"
  shows "(\<forall>p. pnodes s' p \<noteq> pnodes s p \<longrightarrow> p \<in> call_pnode ` set calls) \<and>
         (\<forall>c \<in> set calls.
            bpidx_start s \<le> call_history c \<and> 0 \<le> call_history c \<and>
            call_history c < fsg_history_n_entries (history s) \<and>
            call_frame c = frame s + 1 \<and>
            ctxt_bit (ctxt (pnodes s (call_pnode c)))
              (fsg_hist_entry_lc (fsg_history_entry_get (history s) (call_history c))) = Inr True \<and>
            ctxt_bit (fsg_hist_entry_rc (fsg_history_entry_get (history s) (call_history c)))
              (ci_ext (pnodes s (call_pnode c))) = Inr True \<and>
            call_score c =
              fsg_hist_entry_score (fsg_history_entry_get (history s) (call_history c))
                + logs2prob (pnodes s (call_pnode c)) \<and>
            call_score c \<ge> bestscore s + beam s \<and>
            call_score c > call_in_score c)"
proof -
  from assms have
    "word_trans_entries (bestscore s + beam s) (frame s + 1)
       [bpidx_start s .. fsg_history_n_entries (history s) - 1] (s, []) = Inr (s', calls)"
    by (simp add: fsg_search_word_trans_def Let_def)
  from word_trans_entries_calls [OF this wt_frame_refl]
  have fr: "wt_frame s (s', calls)"
    and ok: "\<forall>c \<in> set calls.
          \<exists>b \<in> set [bpidx_start s .. fsg_history_n_entries (history s) - 1].
            0 \<le> b \<and> wt_call_ok s (bestscore s + beam s) (frame s + 1) b c"
    by auto
  from fr have "\<forall>p. pnodes s' p \<noteq> pnodes s p \<longrightarrow> p \<in> call_pnode ` set calls"
    by (simp add: wt_frame_def Let_def)
  moreover from ok have "\<forall>c \<in> set calls.
            bpidx_start s \<le> call_history c \<and> 0 \<le> call_history c \<and>
            call_history c < fsg_history_n_entries (history s) \<and>
            call_frame c = frame s + 1 \<and>
            ctxt_bit (ctxt (pnodes s (call_pnode c)))
              (fsg_hist_entry_lc (fsg_history_entry_get (history s) (call_history c))) = Inr True \<and>
            ctxt_bit (fsg_hist_entry_rc (fsg_history_entry_get (history s) (call_history c)))
              (ci_ext (pnodes s (call_pnode c))) = Inr True \<and>
            call_score c =
              fsg_hist_entry_score (fsg_history_entry_get (history s) (call_history c))
                + logs2prob (pnodes s (call_pnode c)) \<and>
            call_score c \<ge> bestscore s + beam s \<and>
            call_score c > call_in_score c"
    by (auto simp: wt_call_ok_def)
  ultimately show ?thesis by blast
qed

lemma word_trans_at_start_tree:
  "map_sum id snd (fsg_search_word_trans at_start_tree) =
     Inr [\<lparr>call_pnode = 0, call_score = -20, call_history = 0, call_frame = 0,
           call_in_score = WORST_SCORE\<rparr>]"
  by (simp add: fsg_search_word_trans_def at_start_tree_def at_start_def with_entries_def
        idle_search_def fsg_history_n_entries_def fsg_history_entry_get_def dummy_entry_def
        word_trans_entry_def word_trans_root_def activate_pnode_def ctxt_bit_def
        demo_lextree_def demo_pnodes_def idle_pnode_def null_fsg_def Let_def upto.simps
        hmm_enter_def
        WORST_SCORE_def)

theorem word_trans_admissible_witness:
  "\<exists>s'. fsg_search_word_trans at_start_tree =
          Inr (s', [\<lparr>call_pnode = 0, call_score = -20, call_history = 0, call_frame = 0,
                     call_in_score = WORST_SCORE\<rparr>]) \<and>
        pnodes s' 1 = pnodes at_start_tree 1 \<and>
        ctxt_bit (ctxt (pnodes at_start_tree 0))
          (fsg_hist_entry_lc (fsg_history_entry_get (history at_start_tree) 0)) = Inr True \<and>
        ctxt_bit (ctxt (pnodes at_start_tree 1))
          (fsg_hist_entry_lc (fsg_history_entry_get (history at_start_tree) 0)) = Inr False"
proof -
  obtain s' calls where run: "fsg_search_word_trans at_start_tree = Inr (s', calls)"
    and calls: "calls = [\<lparr>call_pnode = 0, call_score = -20, call_history = 0, call_frame = 0,
           call_in_score = WORST_SCORE\<rparr>]"
    using word_trans_at_start_tree
    by (cases "fsg_search_word_trans at_start_tree") auto
  have "ctxt_bit (ctxt (pnodes at_start_tree 1))
          (fsg_hist_entry_lc (fsg_history_entry_get (history at_start_tree) 0)) = Inr False"
    by (simp add: at_start_tree_def at_start_def with_entries_def idle_search_def
          fsg_history_entry_get_def dummy_entry_def ctxt_bit_def demo_pnodes_def idle_pnode_def)
  with word_trans_admissible [OF run] run calls show ?thesis
    by auto
qed

subsection \<open>Word exits\<close>

lemma all_ctxt_admits:
  assumes "0 \<le> p" and "p < 32 * int n"
  shows "ctxt_bit (fsg_pnode_add_all_ctxt n) p = Inr True"
proof -
  have i: "nat (p div 32) < n" using assms by auto
  have k: "nat (p mod 32) < 32" using assms by simp
  have "push_bit (nat (p mod 32)) (1 :: 32 word) \<noteq> 0"
    using k by (simp add: push_bit_eq_mult)
  then show ?thesis
    using assms i by (simp add: ctxt_bit_def fsg_pnode_add_all_ctxt_def)
qed

text \<open>
  C5: for a leaf with a link of a word id that is not negative, and a grammar selected,
  \<open>fsg_search_pnode_exit\<close> returns, and what it does is to add one entry to the
  history with \<open>fsg_history_entry_add\<close>: the link of the entry is the link of the leaf,
  its frame the current frame, its score and \<open>pred\<close> are \<open>out_score\<close> and
  \<open>out_history\<close> of the HMM of the leaf, its \<open>lc\<close> is \<open>ci_ext\<close> of the leaf, and its
  \<open>rc\<close> is the all-ones bitset, which passes every bit test, when the word is a filler
  or has a pronunciation of length 1, and the \<open>ctxt\<close> of the leaf otherwise.
\<close>

theorem pnode_exit_entry:
  assumes "fsg_pnode_leaf (pnodes s pnode)"
    and "fsg_pnode_fsglink (pnodes s pnode) = Some fl"
    and "0 \<le> fsg_link_wid fl"
    and "fsg s = Some g"
  shows "\<exists>r. fsg_search_pnode_exit s pnode =
           Inr (s\<lparr>history := fsg_history_entry_add (history s) (Some fl) (frame s)
                  (hmm_out_score (hmm (pnodes s pnode)))
                  (hmm_out_history (hmm (pnodes s pnode)))
                  (ci_ext (pnodes s pnode)) r\<rparr>) \<and>
         (if fsg_model_is_filler g (fsg_link_wid fl) \<or>
             dict_pronlen (dict s)
               (dict_to_id (dict s) (fsg_model_word_str g (fsg_link_wid fl))) = 1
          then r = fsg_pnode_add_all_ctxt (ctxt_bvsz s) \<and>
               (\<forall>p. 0 \<le> p \<and> p < 32 * int (ctxt_bvsz s) \<longrightarrow> ctxt_bit r p = Inr True)
          else r = ctxt (pnodes s pnode))"
  using assms
  by (auto simp: fsg_search_pnode_exit_def Let_def all_ctxt_admits)

theorem pnode_exit_entry_witness:
  "fsg_pnode_leaf (pnodes leaf_exit 3) \<and> fsg leaf_exit = Some null_fsg \<and>
   \<not> fsg_model_is_filler null_fsg 0 \<and> dict_pronlen (dict leaf_exit) 0 = 2 \<and>
   tentative (history (projr (fsg_search_pnode_exit leaf_exit 3))) =
     [\<lparr>fsg_hist_entry_fsglink = fsg_pnode_fsglink (demo_pnodes 3),
       fsg_hist_entry_frame = 4, fsg_hist_entry_score = -50, fsg_hist_entry_pred = 0,
       fsg_hist_entry_lc = 5, fsg_hist_entry_rc = \<lparr>bv = [5]\<rparr>\<rparr>] \<and>
   entries (history (projr (fsg_search_pnode_exit leaf_exit 3))) = [dummy_entry] \<and>
   fsg_pnode_leaf (pnodes single_phone_exit 3) \<and> fsg single_phone_exit = Some null_fsg \<and>
   dict_pronlen (dict single_phone_exit) 0 = 1 \<and>
   tentative (history (projr (fsg_search_pnode_exit single_phone_exit 3))) =
     [\<lparr>fsg_hist_entry_fsglink = fsg_pnode_fsglink (demo_pnodes 3),
       fsg_hist_entry_frame = 4, fsg_hist_entry_score = -50, fsg_hist_entry_pred = 0,
       fsg_hist_entry_lc = 5, fsg_hist_entry_rc = \<lparr>bv = [-1]\<rparr>\<rparr>] \<and>
   entries (history (projr (fsg_search_pnode_exit single_phone_exit 3))) = [dummy_entry]"
  using pnode_exit_entry [of leaf_exit 3 "the (fsg_pnode_fsglink (demo_pnodes 3))" null_fsg]
    pnode_exit_entry [of single_phone_exit 3 "the (fsg_pnode_fsglink (demo_pnodes 3))" null_fsg]
  by (auto simp: single_phone_exit_def leaf_exit_def at_start_tree_def at_start_def
        with_entries_def idle_search_def demo_pnodes_def idle_pnode_def null_fsg_def
        fsg_history_entry_add_def fsg_pnode_add_all_ctxt_def Let_def)

subsection \<open>Start followed by finish\<close>

lemmas fixture_defs =
  demo_idle_def idle_search_def demo_pnodes_def demo_lextree_def null_fsg_def null_link_def
  idle_pnode_def dummy_entry_def

lemmas search_defs =
  fsg_search_start_def fsg_search_null_prop_def fsg_search_word_trans_def
  word_trans_entry_def word_trans_root_def activate_pnode_def ctxt_bit_def
  fsg_pnode_add_all_ctxt_def
  fsg_history_entry_add_def fsg_history_reset_def fsg_history_utt_start_def
  fsg_history_n_entries_def fsg_history_entry_get_def hmm_enter_def f32_one_def

lemma start_demo_idle:
  "fsg_search_start demo_idle =
     Inr (0, demo_idle\<lparr>
       pnodes := demo_pnodes
         (0 := (demo_pnodes 0)\<lparr>hmm := hmm_enter (hmm idle_pnode) (-20) 0 0\<rparr>,
          2 := (demo_pnodes 2)\<lparr>hmm := hmm_enter (hmm idle_pnode) (-13) 1 0\<rparr>),
       history := \<lparr>entries =
          [dummy_entry,
           \<lparr>fsg_hist_entry_fsglink = Some (null_link 0 1 (-10)), fsg_hist_entry_frame = -1,
            fsg_hist_entry_score = -10, fsg_hist_entry_pred = 0,
            fsg_hist_entry_lc = 0, fsg_hist_entry_rc = \<lparr>bv = [-1]\<rparr>\<rparr>],
          tentative = [], aggregate = remdups, history_fsg = Some null_fsg\<rparr>,
       pnode_active := [2, 0], frame := 0\<rparr>)"
  by (simp add: fixture_defs search_defs upto.simps Let_def WORST_SCORE_def)


lemma after_start_eq:
  "after_start = demo_idle\<lparr>
       pnodes := demo_pnodes
         (0 := (demo_pnodes 0)\<lparr>hmm := hmm_enter (hmm idle_pnode) (-20) 0 0\<rparr>,
          2 := (demo_pnodes 2)\<lparr>hmm := hmm_enter (hmm idle_pnode) (-13) 1 0\<rparr>),
       history := \<lparr>entries =
          [dummy_entry,
           \<lparr>fsg_hist_entry_fsglink = Some (null_link 0 1 (-10)), fsg_hist_entry_frame = -1,
            fsg_hist_entry_score = -10, fsg_hist_entry_pred = 0,
            fsg_hist_entry_lc = 0, fsg_hist_entry_rc = \<lparr>bv = [-1]\<rparr>\<rparr>],
          tentative = [], aggregate = remdups, history_fsg = Some null_fsg\<rparr>,
       pnode_active := [2, 0], frame := 0\<rparr>"
  by (simp add: after_start_def start_demo_idle)

lemma finish_after_start:
  "fsg_search_finish after_start =
     Inr (0, after_start\<lparr>
       pnodes := (pnodes after_start)
         (2 := fsg_psubtree_pnode_deactivate (pnodes after_start 2),
          0 := fsg_psubtree_pnode_deactivate (pnodes after_start 0)),
       pnode_active := [], final := True\<rparr>)"
  by (simp add: after_start_eq fsg_search_finish_def deactivate_pnode_def demo_idle_def
        idle_search_def Let_def)

lemma after_finish_eq:
  "after_finish = after_start\<lparr>
       pnodes := (pnodes after_start)
         (2 := fsg_psubtree_pnode_deactivate (pnodes after_start 2),
          0 := fsg_psubtree_pnode_deactivate (pnodes after_start 0)),
       pnode_active := [], final := True\<rparr>"
  by (simp add: after_finish_def finish_after_start)

text \<open>
  C7: for the grammar with a null transition from the start state to state 1,
  \<open>fsg_search_start\<close> leaves the dummy entry and one more entry of frame \<open>-1\<close> in the
  history. After \<open>fsg_search_finish\<close> the search for the exit visits both with
  \<open>final\<close> set, and reads \<open>to_state\<close> through the NULL link of the dummy entry; so
  does \<open>fsg_search_hyp\<close>, which starts with that search.
\<close>

theorem start_finish_crashes:
  "fsg_search_start demo_idle = Inr (0, after_start) \<and>
   fsg_search_finish after_start = Inr (0, after_finish) \<and>
   map fsg_hist_entry_frame (entries (history after_finish)) = [-1, -1] \<and>
   map (map_option fsg_link_to_state \<circ> fsg_hist_entry_fsglink) (entries (history after_finish))
     = [None, Some 1] \<and>
   frame after_finish = 0 \<and> final after_finish \<and>
   fsg_search_find_exit after_finish (frame after_finish) (final after_finish)
     = Some (Inl NullDeref) \<and>
   fsg_search_hyp (\<lambda>s. None) (\<lambda>d. None) after_finish = Some (Inl NullDeref)"
proof -
  have fe: "fsg_search_find_exit after_finish 0 True = Some (Inl NullDeref)"
    by (simp add: fsg_search_find_exit_def after_finish_eq after_start_eq demo_idle_def
          idle_search_def fsg_history_n_entries_def fsg_history_entry_get_def
          find_exit_scan_newest find_exit_best.simps dummy_entry_def null_link_def
          null_fsg_def INT_MIN_def)
  have fr: "frame after_finish = 0" "final after_finish"
    by (simp_all add: after_finish_eq after_start_eq demo_idle_def idle_search_def)
  show ?thesis
    using fe fr
    by (simp add: start_demo_idle after_start_eq [symmetric] finish_after_start
          after_finish_eq [symmetric] fsg_search_hyp_def)
       (simp add: after_finish_eq after_start_eq demo_idle_def idle_search_def
          dummy_entry_def null_link_def)
qed

subsection \<open>The lattice cache\<close>

text \<open>
  C8: when a lattice exists and its \<open>n_frames\<close> is the current frame,
  \<open>fsg_search_lattice\<close> returns it and leaves the state as it is; and a second call
  right after a first returns what the first returned, and changes nothing.
\<close>

theorem lattice_cached:
  "(\<forall>d. dag s = Some d \<and> n_frames d = frame s \<longrightarrow>
        fsg_search_lattice build s = (Some d, s)) \<and>
   fsg_search_lattice build (snd (fsg_search_lattice build s)) =
     (fst (fsg_search_lattice build s), snd (fsg_search_lattice build s))"
  by (auto simp: fsg_search_lattice_def Let_def split: option.splits)

theorem lattice_cached_witness:
  "dag (snd (fsg_search_lattice demo_build after_finish))
     = Some \<lparr>lat_addr = 7, n_frames = 0, lat_build = 0\<rparr> \<and>
   n_frames \<lparr>lat_addr = 7, n_frames = 0, lat_build = 0\<rparr>
     = frame (snd (fsg_search_lattice demo_build after_finish)) \<and>
   fsg_search_lattice demo_build (snd (fsg_search_lattice demo_build after_finish)) =
     (Some \<lparr>lat_addr = 7, n_frames = 0, lat_build = 0\<rparr>,
      snd (fsg_search_lattice demo_build after_finish))"
proof -
  have a: "dag (snd (fsg_search_lattice demo_build after_finish))
     = Some \<lparr>lat_addr = 7, n_frames = 0, lat_build = 0\<rparr>"
    and b: "frame (snd (fsg_search_lattice demo_build after_finish)) = 0"
    by (simp_all add: fsg_search_lattice_def demo_build_def after_finish_eq after_start_eq
          demo_idle_def idle_search_def Let_def)
  from lattice_cached [of "snd (fsg_search_lattice demo_build after_finish)" demo_build,
      THEN conjunct1, rule_format, of "\<lparr>lat_addr = 7, n_frames = 0, lat_build = 0\<rparr>"]
    a b
  show ?thesis by simp
qed

subsection \<open>The grammar registry\<close>

text \<open>
  C9, as the code has it. Removing by name the grammar that is current (the same
  object) frees the lextree and nulls the lextree pointer, the grammar of the history
  and the current grammar. Removing another grammar changes the table only. Selecting a
  known name makes that grammar current and changes nothing else: the lextree and the
  grammar of the history stay as they are until \<open>fsg_search_reinit\<close> rebuilds the one
  and rebinds the other. An unknown name changes nothing.
\<close>

theorem registry_invalidation:
  "(\<forall>old. fsgs s key = Some old \<and> map_option fsg_addr (fsg s) = Some (fsg_addr old) \<longrightarrow>
      fsg_set_remove_byname s key =
        (Some old, s\<lparr>fsgs := (fsgs s)(key := None), lextree := None,
                      history := (history s)\<lparr>history_fsg := None\<rparr>, fsg := None\<rparr>)) \<and>
   (\<forall>old. fsgs s key = Some old \<and> map_option fsg_addr (fsg s) \<noteq> Some (fsg_addr old) \<longrightarrow>
      fsg_set_remove_byname s key = (Some old, s\<lparr>fsgs := (fsgs s)(key := None)\<rparr>)) \<and>
   (fsgs s key = None \<longrightarrow> fsg_set_remove_byname s key = (None, s)) \<and>
   (\<forall>g. fsgs s key = Some g \<longrightarrow>
      fsg_set_select s key = (Some g, s\<lparr>fsg := Some g\<rparr>) \<and>
      fsg_search_reinit init (snd (fsg_set_select s key)) =
        (0, s\<lparr>fsg := Some g, lextree := Some (init (Some g)),
               history := (history s)\<lparr>history_fsg := Some g\<rparr>\<rparr>)) \<and>
   (fsgs s key = None \<longrightarrow> fsg_set_select s key = (None, s))"
  by (auto simp: fsg_set_remove_byname_def fsg_set_select_def fsg_set_get_fsg_def
        fsg_search_reinit_def fsg_history_set_fsg_def Let_def)

theorem registry_invalidation_witness:
  "fsgs two_fsgs ''a'' = Some null_fsg \<and>
   map_option fsg_addr (fsg two_fsgs) = Some (fsg_addr null_fsg) \<and>
   lextree (snd (fsg_set_remove_byname two_fsgs ''a'')) = None \<and>
   fsg (snd (fsg_set_remove_byname two_fsgs ''a'')) = None \<and>
   history_fsg (history (snd (fsg_set_remove_byname two_fsgs ''a''))) = None \<and>
   fsgs two_fsgs ''b'' = Some plain_fsg \<and>
   map_option fsg_addr (fsg two_fsgs) \<noteq> Some (fsg_addr plain_fsg) \<and>
   fsg_set_remove_byname two_fsgs ''b'' =
     (Some plain_fsg, two_fsgs\<lparr>fsgs := (fsgs two_fsgs)(''b'' := None)\<rparr>) \<and>
   fsg (snd (fsg_set_select two_fsgs ''b'')) = Some plain_fsg"
proof -
  have a: "fsgs two_fsgs ''a'' = Some null_fsg"
    and b: "fsgs two_fsgs ''b'' = Some plain_fsg"
    and c: "map_option fsg_addr (fsg two_fsgs) = Some (fsg_addr null_fsg)"
    and d: "map_option fsg_addr (fsg two_fsgs) \<noteq> Some (fsg_addr plain_fsg)"
    by (simp_all add: two_fsgs_def demo_idle_def idle_search_def null_fsg_def plain_fsg_def)
  note r = registry_invalidation [of two_fsgs "''a''"]
    registry_invalidation [of two_fsgs "''b''"]
  have ad: "fsg_addr null_fsg \<noteq> fsg_addr plain_fsg"
    by (simp add: null_fsg_def plain_fsg_def)
  from r a b c d ad show ?thesis
    by simp
qed

text \<open>
  C9, as stated, for the selection of another grammar: the current grammar is replaced,
  not nulled, the lextree is still there, and the history is still bound to the old
  grammar.
\<close>

theorem select_keeps_lextree:
  "map_option fsg_addr (fsg two_fsgs) = Some 2 \<and>
   map_option fsg_addr (fsgs two_fsgs ''b'') = Some 1 \<and>
   map_option fsg_addr (fst (fsg_set_select two_fsgs ''b'')) = Some 1 \<and>
   map_option fsg_addr (fsg (snd (fsg_set_select two_fsgs ''b''))) = Some 1 \<and>
   map_option fsg_lextree_n_pnode (lextree (snd (fsg_set_select two_fsgs ''b''))) = Some 4 \<and>
   map_option fsg_addr (history_fsg (history (snd (fsg_set_select two_fsgs ''b'')))) = Some 2"
  by (simp add: fsg_set_select_def fsg_set_get_fsg_def two_fsgs_def demo_idle_def
        idle_search_def null_fsg_def plain_fsg_def demo_lextree_def)

subsection \<open>The active sets across a frame\<close>

lemma same_sched_refl: "same_sched s s"
  by (simp add: same_sched_def)

lemma same_sched_trans: "same_sched s t \<Longrightarrow> same_sched t u \<Longrightarrow> same_sched s u"
  by (simp add: same_sched_def)

lemma next_inv_same_sched: "next_inv cur A B s \<Longrightarrow> same_sched s t \<Longrightarrow> next_inv cur A B t"
  by (simp add: same_sched_def next_inv_def)

lemma hmm_eval_loop_sched:
  "hmm_eval_loop ps (s, n, b) = Inr (s', n', b') \<Longrightarrow> same_sched s s'"
proof (induction ps arbitrary: s n b)
  case Nil
  then show ?case by (simp add: same_sched_def)
next
  case (Cons p ps)
  let ?s1 = "s\<lparr>pnodes := (pnodes s)(p := (pnodes s p)
               \<lparr>hmm := hmm_vit_eval (hmmctx s) (hmm (pnodes s p))\<rparr>)\<rparr>"
  have one: "same_sched s ?s1"
    by (auto simp: same_sched_def pnode_frame_def hmm_vit_eval_def)
  from Cons.prems obtain n1 b1 where "hmm_eval_loop ps (?s1, n1, b1) = Inr (s', n', b')"
    by (auto simp: Let_def split: if_splits)
  from Cons.IH [OF this] one show ?case by (rule same_sched_trans [rotated])
qed

lemma adjust_beams_sched: "same_sched s (adjust_beams n s)"
  by (simp add: same_sched_def adjust_beams_def pnode_frame_def [abs_def] Let_def)

lemma hmm_eval_sched:
  assumes "fsg_search_hmm_eval s = Inr s'"
  shows "same_sched s s'"
proof (cases "pnode_active s = []")
  case True
  with assms show ?thesis by (simp add: fsg_search_hmm_eval_def same_sched_def)
next
  case False
  with assms obtain s1 n b where loop: "hmm_eval_loop (pnode_active s) (s, 0, WORST_SCORE) = Inr (s1, n, b)"
    and s': "s' = (adjust_beams n (s1\<lparr>n_hmm_eval := n_hmm_eval s1 + n\<rparr>))\<lparr>bestscore := b\<rparr>"
    by (auto simp: fsg_search_hmm_eval_def Let_def split: sum.splits option.splits if_splits)
  have "same_sched s1 (s1\<lparr>n_hmm_eval := n_hmm_eval s1 + n\<rparr>)"
    by (simp add: same_sched_def pnode_frame_def [abs_def])
  moreover have "same_sched (s1\<lparr>n_hmm_eval := n_hmm_eval s1 + n\<rparr>)
                   (adjust_beams n (s1\<lparr>n_hmm_eval := n_hmm_eval s1 + n\<rparr>))"
    by (rule adjust_beams_sched)
  moreover have "same_sched (adjust_beams n (s1\<lparr>n_hmm_eval := n_hmm_eval s1 + n\<rparr>)) s'"
    by (simp add: s' same_sched_def pnode_frame_def [abs_def])
  ultimately show ?thesis
    using hmm_eval_loop_sched [OF loop] by (blast intro: same_sched_trans)
qed

lemma next_invD:
  assumes "next_inv cur A B s"
  shows "frame s = cur" and "pnode_active s = A" and "distinct (pnode_active_next s)"
    and "\<And>p. pnode_frame s p = cur + 1 \<longleftrightarrow> p \<in> set (pnode_active_next s)"
    and "\<And>p. pnode_frame s p \<le> cur + 1"
    and "\<And>p. pnode_frame s p = cur \<Longrightarrow> p \<in> B"
    and "\<And>p. p \<in> set A \<Longrightarrow> cur \<le> pnode_frame s p"
  using assms by (simp_all add: next_inv_def)

lemma next_invI:
  assumes "frame s = cur" and "pnode_active s = A" and "distinct (pnode_active_next s)"
    and "\<And>p. pnode_frame s p = cur + 1 \<longleftrightarrow> p \<in> set (pnode_active_next s)"
    and "\<And>p. pnode_frame s p \<le> cur + 1"
    and "\<And>p. pnode_frame s p = cur \<Longrightarrow> p \<in> B"
    and "\<And>p. p \<in> set A \<Longrightarrow> cur \<le> pnode_frame s p"
  shows "next_inv cur A B s"
  using assms by (simp add: next_inv_def)

lemma enter_next_inv:
  assumes "next_inv cur A B s"
  shows "next_inv cur A B (activate_pnode (cur + 1) c scr hist s)"
    (is "next_inv cur A B ?t")
proof -
  note inv = next_invD [OF assms]
  have fr: "pnode_frame ?t p = (if p = c then cur + 1 else pnode_frame s p)" for p
    by (simp add: pnode_frame_def hmm_enter_def activate_pnode_def)
  have nx: "set (pnode_active_next ?t) = insert c (set (pnode_active_next s))"
  proof (cases "hmm_frame (hmm (pnodes s c)) < cur + 1")
    case True
    then show ?thesis by (simp add: activate_pnode_def)
  next
    case False
    with inv(5) [of c] have "pnode_frame s c = cur + 1" by (simp add: pnode_frame_def)
    with inv(4) [of c] False show ?thesis by (auto simp: activate_pnode_def)
  qed
  have ds: "distinct (pnode_active_next ?t)"
  proof (cases "hmm_frame (hmm (pnodes s c)) < cur + 1")
    case True
    with inv(4) [of c] have "c \<notin> set (pnode_active_next s)" by (simp add: pnode_frame_def)
    with True inv(3) show ?thesis by (simp add: activate_pnode_def)
  next
    case False
    with inv(3) show ?thesis by (simp add: activate_pnode_def)
  qed
  show ?thesis
  proof (rule next_invI)
    show "frame ?t = cur" using inv(1) by (simp add: activate_pnode_def)
    show "pnode_active ?t = A" using inv(2) by (simp add: activate_pnode_def)
    show "distinct (pnode_active_next ?t)" by (rule ds)
    show "pnode_frame ?t p = cur + 1 \<longleftrightarrow> p \<in> set (pnode_active_next ?t)" for p
      unfolding fr nx using inv(4) [of p] by simp
    show "pnode_frame ?t p \<le> cur + 1" for p
      unfolding fr using inv(5) [of p] by simp
    show "pnode_frame ?t p = cur \<Longrightarrow> p \<in> B" for p
      unfolding fr using inv(6) [of p] by (simp split: if_splits)
    show "p \<in> set A \<Longrightarrow> cur \<le> pnode_frame ?t p" for p
      unfolding fr using inv(7) [of p] by simp
  qed
qed

lemma pnode_trans_child_inv:
  assumes "next_inv cur A B s"
  shows "next_inv cur A B (pnode_trans_child thresh (cur + 1) pnode child s)"
  using enter_next_inv [OF assms, of child] assms
  by (simp add: pnode_trans_child_def Let_def)

lemma fold_pnode_trans_child_inv:
  "next_inv cur A B s \<Longrightarrow>
     next_inv cur A B (fold (pnode_trans_child thresh (cur + 1) pnode) cs s)"
  by (induction cs arbitrary: s) (simp_all add: pnode_trans_child_inv)

lemma pnode_trans_inv:
  assumes "fsg_search_pnode_trans s pnode = Inr s'" and "next_inv cur A B s"
  shows "next_inv cur A B s'"
proof -
  from assms(2) have "frame s = cur" by (simp add: next_inv_def)
  with assms show ?thesis
    by (auto simp: fsg_search_pnode_trans_def fold_pnode_trans_child_inv split: if_splits)
qed

lemma pnode_exit_sched:
  "fsg_search_pnode_exit s pnode = Inr s' \<Longrightarrow> same_sched s s'"
  by (auto simp: fsg_search_pnode_exit_def same_sched_def pnode_frame_def [abs_def] Let_def
           split: option.splits if_splits)

lemma keep_active_inv:
  assumes "next_inv cur A B s"
  shows "next_inv cur A B (keep_active p s)"
proof (cases "hmm_frame (hmm (pnodes s p)) = cur")
  case False
  with assms next_invD(1) [OF assms] show ?thesis by (simp add: keep_active_def)
next
  case True
  note inv = next_invD [OF assms]
  let ?t = "keep_active p s"
  have fr: "pnode_frame ?t q = (if q = p then cur + 1 else pnode_frame s q)" for q
    using True inv(1) by (simp add: pnode_frame_def keep_active_def)
  have nx: "pnode_active_next ?t = p # pnode_active_next s"
    using True inv(1) by (simp add: keep_active_def)
  from inv(4) [of p] True have notin: "p \<notin> set (pnode_active_next s)"
    by (simp add: pnode_frame_def)
  show ?thesis
  proof (rule next_invI)
    show "frame ?t = cur" using inv(1) by (simp add: keep_active_def)
    show "pnode_active ?t = A" using inv(2) by (simp add: keep_active_def)
    show "distinct (pnode_active_next ?t)" using inv(3) notin by (simp add: nx)
    show "pnode_frame ?t q = cur + 1 \<longleftrightarrow> q \<in> set (pnode_active_next ?t)" for q
      unfolding fr nx using inv(4) [of q] by simp
    show "pnode_frame ?t q \<le> cur + 1" for q
      unfolding fr using inv(5) [of q] by simp
    show "pnode_frame ?t q = cur \<Longrightarrow> q \<in> B" for q
      unfolding fr using inv(6) [of q] by (simp split: if_splits)
    show "q \<in> set A \<Longrightarrow> cur \<le> pnode_frame ?t q" for q
      unfolding fr using inv(7) [of q] by simp
  qed
qed

lemma prune_prop_pnode_inv:
  assumes "prune_prop_pnode t1 t2 t3 p s = Inr s'" and "next_inv cur A B s"
  shows "next_inv cur A B s'"
proof (cases "t1 \<le> hmm_bestscore (hmm (pnodes s p))")
  case False
  with assms(1) have "s' = s" by (simp add: prune_prop_pnode_def Let_def)
  with assms(2) show ?thesis by simp
next
  case True
  have s1: "next_inv cur A B (keep_active p s)"
    by (rule keep_active_inv [OF assms(2)])
  from assms(1) True have ok:
    "\<not> (hmm_frame (hmm (pnodes s p)) \<noteq> frame s \<and> hmm_frame (hmm (pnodes s p)) \<noteq> frame s + 1)"
    by (cases "hmm_frame (hmm (pnodes s p)) \<noteq> frame s \<and> hmm_frame (hmm (pnodes s p)) \<noteq> frame s + 1")
       (simp_all add: prune_prop_pnode_def Let_def)
  show ?thesis
  proof (cases "fsg_pnode_leaf (pnodes s p)")
    case leaf: True
    show ?thesis
    proof (cases "t3 \<le> hmm_out_score (hmm (pnodes s p))")
      case True
      with assms(1) \<open>t1 \<le> _\<close> ok leaf have "fsg_search_pnode_exit (keep_active p s) p = Inr s'"
        by (simp add: prune_prop_pnode_def Let_def)
      from next_inv_same_sched [OF s1 pnode_exit_sched [OF this]] show ?thesis .
    next
      case False
      with assms(1) \<open>t1 \<le> _\<close> ok leaf have "s' = keep_active p s"
        by (simp add: prune_prop_pnode_def Let_def)
      with s1 show ?thesis by simp
    qed
  next
    case leaf: False
    show ?thesis
    proof (cases "t2 \<le> hmm_out_score (hmm (pnodes s p))")
      case True
      with assms(1) \<open>t1 \<le> _\<close> ok leaf have "fsg_search_pnode_trans (keep_active p s) p = Inr s'"
        by (simp add: prune_prop_pnode_def Let_def)
      from pnode_trans_inv [OF this s1] show ?thesis .
    next
      case False
      with assms(1) \<open>t1 \<le> _\<close> ok leaf have "s' = keep_active p s"
        by (simp add: prune_prop_pnode_def Let_def)
      with s1 show ?thesis by simp
    qed
  qed
qed

lemma prune_prop_loop_inv:
  "prune_prop_loop t1 t2 t3 ps s = Inr s' \<Longrightarrow> next_inv cur A B s \<Longrightarrow> next_inv cur A B s'"
proof (induction ps arbitrary: s)
  case Nil
  then show ?case by simp
next
  case (Cons p ps)
  from Cons.prems(1) obtain s1 where one: "prune_prop_pnode t1 t2 t3 p s = Inr s1"
    and rest: "prune_prop_loop t1 t2 t3 ps s1 = Inr s'"
    by (auto split: sum.splits)
  from Cons.IH [OF rest prune_prop_pnode_inv [OF one Cons.prems(2)]] show ?case .
qed

lemma prune_prop_inv:
  "fsg_search_hmm_prune_prop s = Inr s' \<Longrightarrow> next_inv cur A B s \<Longrightarrow> next_inv cur A B s'"
  by (auto simp: fsg_search_hmm_prune_prop_def dest: prune_prop_loop_inv split: if_splits)

lemma null_prop_sched:
  "fsg_search_null_prop s = Inr s' \<Longrightarrow> same_sched s s'"
  by (auto simp: fsg_search_null_prop_def same_sched_def pnode_frame_def [abs_def] Let_def
           split: sum.splits)

lemma word_trans_root_inv:
  assumes "word_trans_root thresh (cur + 1) e b root (s, tr) = Inr (s', tr')"
    and "next_inv cur A B s"
  shows "next_inv cur A B s'"
  using assms enter_next_inv [OF assms(2), of root]
  by (auto simp: word_trans_root_def Let_def split: sum.splits if_splits)

lemma word_trans_roots_inv:
  "word_trans_roots thresh (cur + 1) e b roots (s, tr) = Inr (s', tr') \<Longrightarrow>
     next_inv cur A B s \<Longrightarrow> next_inv cur A B s'"
proof (induction roots arbitrary: s tr)
  case Nil
  then show ?case by simp
next
  case (Cons r rs)
  from Cons.prems(1) obtain s1 tr1 where
    one: "word_trans_root thresh (cur + 1) e b r (s, tr) = Inr (s1, tr1)"
    and rest: "word_trans_roots thresh (cur + 1) e b rs (s1, tr1) = Inr (s', tr')"
    by (auto split: sum.splits)
  from Cons.IH [OF rest word_trans_root_inv [OF one Cons.prems(2)]] show ?case .
qed

lemma word_trans_entry_inv:
  "word_trans_entry thresh (cur + 1) b (s, tr) = Inr (s', tr') \<Longrightarrow>
     next_inv cur A B s \<Longrightarrow> next_inv cur A B s'"
  by (auto simp: word_trans_entry_def Let_def dest: word_trans_roots_inv
           split: sum.splits if_splits option.splits)

lemma word_trans_entries_inv:
  "word_trans_entries thresh (cur + 1) bs (s, tr) = Inr (s', tr') \<Longrightarrow>
     next_inv cur A B s \<Longrightarrow> next_inv cur A B s'"
proof (induction bs arbitrary: s tr)
  case Nil
  then show ?case by simp
next
  case (Cons b bs)
  from Cons.prems(1) obtain s1 tr1 where
    one: "word_trans_entry thresh (cur + 1) b (s, tr) = Inr (s1, tr1)"
    and rest: "word_trans_entries thresh (cur + 1) bs (s1, tr1) = Inr (s', tr')"
    by (auto split: sum.splits)
  from Cons.IH [OF rest word_trans_entry_inv [OF one Cons.prems(2)]] show ?case .
qed

lemma word_trans_inv:
  assumes "fsg_search_word_trans s = Inr (s', calls)" and "next_inv cur A B s"
  shows "next_inv cur A B s'"
proof -
  from assms(2) have "frame s = cur" by (simp add: next_inv_def)
  with assms show ?thesis
    by (auto simp: fsg_search_word_trans_def Let_def dest: word_trans_entries_inv)
qed


lemma step_deactivate_result:
  assumes "step_deactivate ps s = Inr s'" and "distinct ps" and "0 \<le> frame s"
  shows "frame s' = frame s \<and> pnode_active s' = pnode_active s \<and>
         pnode_active_next s' = pnode_active_next s \<and>
         (\<forall>p. pnodes s' p =
                (if p \<in> set ps \<and> pnode_frame s p = frame s
                 then fsg_psubtree_pnode_deactivate (pnodes s p) else pnodes s p)) \<and>
         (\<forall>p \<in> set ps. pnode_frame s p = frame s \<or> pnode_frame s p = frame s + 1)"
  using assms
proof (induction ps arbitrary: s)
  case Nil
  then show ?case by simp
next
  case (Cons q ps)
  show ?case
  proof (cases "hmm_frame (hmm (pnodes s q)) = frame s")
    case True
    let ?s1 = "s\<lparr>pnodes := (pnodes s)(q := fsg_psubtree_pnode_deactivate (pnodes s q))\<rparr>"
    from Cons.prems True have run: "step_deactivate ps ?s1 = Inr s'" by simp
    have fr1: "pnode_frame ?s1 p = (if p = q then -1 else pnode_frame s p)" for p
      by (simp add: pnode_frame_def fsg_psubtree_pnode_deactivate_def)
    from Cons.IH [OF run] Cons.prems(2,3)
    have ih: "frame s' = frame s" "pnode_active s' = pnode_active s"
      "pnode_active_next s' = pnode_active_next s"
      "\<And>p. pnodes s' p =
                (if p \<in> set ps \<and> pnode_frame ?s1 p = frame s
                 then fsg_psubtree_pnode_deactivate (pnodes ?s1 p) else pnodes ?s1 p)"
      "\<And>p. p \<in> set ps \<Longrightarrow> pnode_frame ?s1 p = frame s \<or> pnode_frame ?s1 p = frame s + 1"
      by simp_all
    have q: "q \<notin> set ps" using Cons.prems(2) by simp
    have "pnodes s' p =
                (if p \<in> set (q # ps) \<and> pnode_frame s p = frame s
                 then fsg_psubtree_pnode_deactivate (pnodes s p) else pnodes s p)" for p
      using ih(4) [of p] q True unfolding fr1
      by (cases "p = q") (simp_all add: pnode_frame_def)
    moreover have "pnode_frame s p = frame s \<or> pnode_frame s p = frame s + 1"
      if "p \<in> set (q # ps)" for p
    proof (cases "p = q")
      case True
      with \<open>hmm_frame (hmm (pnodes s q)) = frame s\<close> show ?thesis
        by (simp add: pnode_frame_def)
    next
      case False
      with that ih(5) [of p] show ?thesis unfolding fr1 by simp
    qed
    ultimately show ?thesis using ih(1-3) by blast
  next
    case False
    with Cons.prems have nf: "hmm_frame (hmm (pnodes s q)) = frame s + 1"
      and run: "step_deactivate ps s = Inr s'"
      by (simp_all split: if_splits)
    from Cons.IH [OF run] Cons.prems(2,3)
    have ih: "frame s' = frame s" "pnode_active s' = pnode_active s"
      "pnode_active_next s' = pnode_active_next s"
      "\<And>p. pnodes s' p =
                (if p \<in> set ps \<and> pnode_frame s p = frame s
                 then fsg_psubtree_pnode_deactivate (pnodes s p) else pnodes s p)"
      "\<And>p. p \<in> set ps \<Longrightarrow> pnode_frame s p = frame s \<or> pnode_frame s p = frame s + 1"
      by simp_all
    have "pnodes s' p =
                (if p \<in> set (q # ps) \<and> pnode_frame s p = frame s
                 then fsg_psubtree_pnode_deactivate (pnodes s p) else pnodes s p)" for p
      using ih(4) [of p] False by (cases "p = q") (simp_all add: pnode_frame_def)
    moreover have "pnode_frame s p = frame s \<or> pnode_frame s p = frame s + 1"
      if "p \<in> set (q # ps)" for p
      using that ih(5) [of p] nf by (cases "p = q") (simp_all add: pnode_frame_def)
    ultimately show ?thesis using ih(1-3) by blast
  qed
qed

lemma step_phases:
  assumes "fsg_search_step s senscr am = Inr (1, s')"
  obtains s1 s2 s3 s4 s5 s6 calls where
    "same_sched s s1"
    "fsg_search_hmm_eval s1 = Inr s2"
    "fsg_search_hmm_prune_prop s2 = Inr s3"
    "fsg_search_null_prop (s3\<lparr>history := fsg_history_end_frame (history s3)\<rparr>) = Inr s4"
    "fsg_search_word_trans (s4\<lparr>history := fsg_history_end_frame (history s4)\<rparr>) = Inr (s5, calls)"
    "step_deactivate (pnode_active s5) s5 = Inr s6"
    "s' = s6\<lparr>pnode_active := pnode_active_next s6, pnode_active_next := [],
              frame := frame s6 + 1\<rparr>"
proof -
  from assms have nz: "n_feat_frame (acmod s) \<noteq> 0"
    by (auto simp: fsg_search_step_def)
  define s1 where "s1 = s\<lparr>acmod := am, n_sen_eval := n_sen_eval s + n_senone_active am,
                      hmmctx := senscr,
                      bpidx_start := fsg_history_n_entries (history s)\<rparr>"
  have sen: "(if \<not> compallsen (acmod s) then fsg_search_sen_active s else Inr s) = Inr s"
    using assms nz
    by (auto simp: fsg_search_step_def fsg_search_sen_active_def split: if_splits)
  have sched: "same_sched s s1"
    by (simp add: s1_def same_sched_def pnode_frame_def [abs_def])
  from assms nz sen have rest:
    "(case fsg_search_hmm_eval s1 of
               Inl e \<Rightarrow> Inl e
             | Inr s2 \<Rightarrow>
                 (case fsg_search_hmm_prune_prop s2 of
                    Inl e \<Rightarrow> Inl e
                  | Inr s3 \<Rightarrow>
                      (case fsg_search_null_prop
                              (s3\<lparr>history := fsg_history_end_frame (history s3)\<rparr>) of
                         Inl e \<Rightarrow> Inl e
                       | Inr s4 \<Rightarrow>
                           (case fsg_search_word_trans
                                   (s4\<lparr>history := fsg_history_end_frame (history s4)\<rparr>) of
                              Inl e \<Rightarrow> Inl e
                            | Inr (s5, calls) \<Rightarrow>
                                (case step_deactivate (pnode_active s5) s5 of
                                   Inl e \<Rightarrow> Inl e
                                 | Inr s6 \<Rightarrow>
                                     Inr (1::int, s6\<lparr>pnode_active := pnode_active_next s6,
                                                pnode_active_next := [],
                                                frame := frame s6 + 1\<rparr>)))))) = Inr (1, s')"
    unfolding fsg_search_step_def Let_def s1_def by simp
  then obtain s2 where e2: "fsg_search_hmm_eval s1 = Inr s2"
    by (cases "fsg_search_hmm_eval s1") simp_all
  with rest obtain s3 where e3: "fsg_search_hmm_prune_prop s2 = Inr s3"
    by (cases "fsg_search_hmm_prune_prop s2") simp_all
  with rest e2 obtain s4 where
    e4: "fsg_search_null_prop (s3\<lparr>history := fsg_history_end_frame (history s3)\<rparr>) = Inr s4"
    by (cases "fsg_search_null_prop (s3\<lparr>history := fsg_history_end_frame (history s3)\<rparr>)")
       simp_all
  with rest e2 e3 obtain s5 calls where
    e5: "fsg_search_word_trans (s4\<lparr>history := fsg_history_end_frame (history s4)\<rparr>)
           = Inr (s5, calls)"
    by (cases "fsg_search_word_trans (s4\<lparr>history := fsg_history_end_frame (history s4)\<rparr>)")
       auto
  with rest e2 e3 e4 obtain s6 where e6: "step_deactivate (pnode_active s5) s5 = Inr s6"
    by (cases "step_deactivate (pnode_active s5) s5") simp_all
  with rest e2 e3 e4 e5 have "s' = s6\<lparr>pnode_active := pnode_active_next s6,
      pnode_active_next := [], frame := frame s6 + 1\<rparr>"
    by simp
  with sched e2 e3 e4 e5 e6 show ?thesis by (rule that)
qed


lemma step_inv_next_inv:
  assumes "step_inv s"
  shows "next_inv (frame s) (pnode_active s) (set (pnode_active s)) s"
proof (rule next_invI)
  show "pnode_frame s p = frame s + 1 \<longleftrightarrow> p \<in> set (pnode_active_next s)" for p
  proof -
    from assms have "hmm_frame (hmm (pnodes s p)) \<le> frame s" and "pnode_active_next s = []"
      by (simp_all add: step_inv_def)
    then show ?thesis by (simp add: pnode_frame_def)
  qed
  show "pnode_frame s p \<le> frame s + 1" for p
  proof -
    from assms have "hmm_frame (hmm (pnodes s p)) \<le> frame s" by (simp add: step_inv_def)
    then show ?thesis by (simp add: pnode_frame_def)
  qed
  show "pnode_frame s p = frame s \<Longrightarrow> p \<in> set (pnode_active s)" for p
    using assms by (simp add: step_inv_def pnode_frame_def)
  show "frame s \<le> pnode_frame s p" if "p \<in> set (pnode_active s)" for p
  proof -
    from assms that have "hmm_frame (hmm (pnodes s p)) = frame s" by (simp add: step_inv_def)
    then show ?thesis by (simp add: pnode_frame_def)
  qed
qed (use assms in \<open>simp_all add: step_inv_def\<close>)

lemma step_result:
  assumes "step_inv s" and "fsg_search_step s senscr am = Inr (1, s')"
  shows "step_inv s' \<and> frame s' = frame s + 1 \<and>
         pnode_active_next s' = [] \<and>
         (\<forall>p. hmm_frame (hmm (pnodes s' p)) = frame s' \<longleftrightarrow> p \<in> set (pnode_active s')) \<and>
         (\<forall>p. hmm_frame (hmm (pnodes s' p)) \<noteq> frame s) \<and>
         (\<forall>p \<in> set (pnode_active s). p \<notin> set (pnode_active s') \<longrightarrow>
            hmm (pnodes s' p) = hmm (fsg_psubtree_pnode_deactivate (pnodes s p)))"
proof -
  let ?cur = "frame s" and ?A = "pnode_active s" and ?B = "set (pnode_active s)"
  from assms(2) obtain s1 s2 s3 s4 s5 s6 calls where
    p1: "same_sched s s1"
    and p2: "fsg_search_hmm_eval s1 = Inr s2"
    and p3: "fsg_search_hmm_prune_prop s2 = Inr s3"
    and p4: "fsg_search_null_prop (s3\<lparr>history := fsg_history_end_frame (history s3)\<rparr>) = Inr s4"
    and p5: "fsg_search_word_trans (s4\<lparr>history := fsg_history_end_frame (history s4)\<rparr>)
               = Inr (s5, calls)"
    and p6: "step_deactivate (pnode_active s5) s5 = Inr s6"
    and s': "s' = s6\<lparr>pnode_active := pnode_active_next s6, pnode_active_next := [],
              frame := frame s6 + 1\<rparr>"
    by (rule step_phases)
  have cur: "0 \<le> ?cur" and dA: "distinct ?A"
    using assms(1) by (simp_all add: step_inv_def)
  have i0: "next_inv ?cur ?A ?B s" by (rule step_inv_next_inv [OF assms(1)])
  have i2: "next_inv ?cur ?A ?B s2"
    using i0 p1 hmm_eval_sched [OF p2] by (blast intro: next_inv_same_sched)
  have i3: "next_inv ?cur ?A ?B s3" by (rule prune_prop_inv [OF p3 i2])
  have e3: "same_sched s3 (s3\<lparr>history := fsg_history_end_frame (history s3)\<rparr>)"
    by (simp add: same_sched_def pnode_frame_def [abs_def])
  have i4: "next_inv ?cur ?A ?B s4"
    using i3 e3 null_prop_sched [OF p4] by (blast intro: next_inv_same_sched)
  have e4: "same_sched s4 (s4\<lparr>history := fsg_history_end_frame (history s4)\<rparr>)"
    by (simp add: same_sched_def pnode_frame_def [abs_def])
  have i5: "next_inv ?cur ?A ?B s5"
    using word_trans_inv [OF p5 next_inv_same_sched [OF i4 e4]] .
  note inv = next_invD [OF i5]
  from step_deactivate_result [OF p6] inv(1,2) dA cur
  have d: "frame s6 = ?cur" "pnode_active_next s6 = pnode_active_next s5"
    and pn: "\<And>p. pnodes s6 p =
                (if p \<in> ?B \<and> pnode_frame s5 p = ?cur
                 then fsg_psubtree_pnode_deactivate (pnodes s5 p) else pnodes s5 p)"
    and asrt: "\<And>p. p \<in> ?B \<Longrightarrow> pnode_frame s5 p = ?cur \<or> pnode_frame s5 p = ?cur + 1"
    by simp_all
  have fr6: "pnode_frame s6 p = (if pnode_frame s5 p = ?cur then -1 else pnode_frame s5 p)" for p
    using pn [of p] inv(6) [of p]
    by (simp add: pnode_frame_def fsg_psubtree_pnode_deactivate_def)
  have fr': "hmm_frame (hmm (pnodes s' p)) = pnode_frame s6 p" for p
    by (simp add: s' pnode_frame_def)
  have act': "pnode_active s' = pnode_active_next s5" and nx': "pnode_active_next s' = []"
    and frame': "frame s' = ?cur + 1"
    by (simp_all add: s' d)
  have iff: "hmm_frame (hmm (pnodes s' p)) = frame s' \<longleftrightarrow> p \<in> set (pnode_active s')" for p
    unfolding fr' fr6 frame' act' using inv(4) [of p] cur by auto
  have le: "hmm_frame (hmm (pnodes s' p)) \<le> frame s'" for p
    unfolding fr' fr6 frame' using inv(5) [of p] cur by simp
  have old: "hmm_frame (hmm (pnodes s' p)) \<noteq> ?cur" for p
    unfolding fr' fr6 using cur by simp
  have deact: "hmm (pnodes s' p) = hmm (fsg_psubtree_pnode_deactivate (pnodes s p))"
    if "p \<in> ?B" and "p \<notin> set (pnode_active s')" for p
  proof -
    from that(2) inv(4) [of p] have "pnode_frame s5 p \<noteq> ?cur + 1" by (simp add: act')
    with asrt [OF that(1)] have "pnode_frame s5 p = ?cur" by simp
    with pn [of p] that(1) show ?thesis
      by (simp add: s' fsg_psubtree_pnode_deactivate_def)
  qed
  have "step_inv s'"
    unfolding step_inv_def using iff le nx' frame' cur inv(3) act' by simp
  with frame' nx' iff old deact show ?thesis by blast
qed

lemma same_static_refl: "same_static s s"
  by (simp add: same_static_def)

lemma same_static_trans: "same_static s t \<Longrightarrow> same_static t u \<Longrightarrow> same_static s u"
  by (simp add: same_static_def)

lemma same_static_run_ok:
  assumes "run_ok s" and "same_static s t"
  shows "run_ok t"
proof -
  have "entry_ok t = entry_ok s"
    using assms(2) by (simp add: fun_eq_iff same_static_def entry_ok_def)
  moreover have "nodes_ok t = nodes_ok s"
    using assms(2) by (simp add: same_static_def nodes_ok_def)
  ultimately show ?thesis
    using assms by (simp add: run_ok_def same_static_def)
qed

lemma activate_pnode_static: "same_static s (activate_pnode nf c scr hist s)"
  by (simp add: same_static_def activate_pnode_def)

lemma keep_active_static: "same_static s (keep_active p s)"
  by (simp add: same_static_def keep_active_def)

lemma pnode_trans_child_static: "same_static s (pnode_trans_child thresh nf p c s)"
  by (simp add: pnode_trans_child_def Let_def activate_pnode_static same_static_refl)

lemma fold_pnode_trans_child_static:
  "same_static s (fold (pnode_trans_child thresh nf p) cs s)"
proof (induction cs arbitrary: s)
  case Nil
  show ?case by (simp add: same_static_refl)
next
  case (Cons c cs)
  have "same_static s (pnode_trans_child thresh nf p c s)"
    by (rule pnode_trans_child_static)
  from same_static_trans [OF this Cons.IH] show ?case by simp
qed

lemma pnode_trans_returns:
  assumes "\<not> fsg_pnode_leaf (pnodes s p)"
  shows "\<exists>s'. fsg_search_pnode_trans s p = Inr s' \<and> same_static s s'"
  using assms by (simp add: fsg_search_pnode_trans_def fold_pnode_trans_child_static)

lemma hmm_eval_loop_returns:
  assumes "\<forall>p \<in> set ps. hmm_frame (hmm (pnodes s p)) = frame s"
  shows "\<exists>s' b'. hmm_eval_loop ps (s, n, b) = Inr (s', n + int (length ps), b') \<and>
                 same_static s s'"
  using assms
proof (induction ps arbitrary: s n b)
  case Nil
  show ?case by (simp add: same_static_refl)
next
  case (Cons p ps)
  let ?h = "hmm_vit_eval (hmmctx s) (hmm (pnodes s p))"
  let ?s1 = "s\<lparr>pnodes := (pnodes s)(p := (pnodes s p)\<lparr>hmm := ?h\<rparr>)\<rparr>"
  let ?b1 = "if b < hmm_bestscore ?h then hmm_bestscore ?h else b"
  have fr: "\<forall>q \<in> set ps. hmm_frame (hmm (pnodes ?s1 q)) = frame ?s1"
    using Cons.prems by (simp add: hmm_vit_eval_def)
  have st: "same_static s ?s1" by (simp add: same_static_def)
  from Cons.IH [OF fr, of "n + 1" ?b1] obtain s' b' where
    run: "hmm_eval_loop ps (?s1, n + 1, ?b1) = Inr (s', n + 1 + int (length ps), b')"
    and st': "same_static ?s1 s'"
    by blast
  from Cons.prems have "hmm_frame (hmm (pnodes s p)) = frame s" by simp
  with run have "hmm_eval_loop (p # ps) (s, n, b) = Inr (s', n + int (length (p # ps)), b')"
    by (simp add: Let_def add.assoc add.commute)
  with same_static_trans [OF st st'] show ?case by blast
qed

lemma hmm_eval_returns:
  assumes "\<forall>p \<in> set (pnode_active s). hmm_frame (hmm (pnodes s p)) = frame s"
    and "lextree s = Some lt"
    and "int (length (pnode_active s)) \<le> fsg_lextree_n_pnode lt"
  shows "\<exists>s'. fsg_search_hmm_eval s = Inr s' \<and> same_static s s'"
proof (cases "pnode_active s = []")
  case True
  then show ?thesis by (simp add: fsg_search_hmm_eval_def same_static_refl)
next
  case False
  from hmm_eval_loop_returns [OF assms(1), of 0 WORST_SCORE] obtain s1 b1 where
    loop: "hmm_eval_loop (pnode_active s) (s, 0, WORST_SCORE)
             = Inr (s1, int (length (pnode_active s)), b1)"
    and st: "same_static s s1"
    by auto
  let ?n = "int (length (pnode_active s))"
  let ?s2 = "adjust_beams ?n (s1\<lparr>n_hmm_eval := n_hmm_eval s1 + ?n\<rparr>)"
  have st2: "same_static s1 (?s2\<lparr>bestscore := b1\<rparr>)"
    by (simp add: same_static_def adjust_beams_def Let_def)
  have lt: "lextree ?s2 = Some lt"
    using st assms(2) by (simp add: same_static_def adjust_beams_def Let_def)
  from False loop lt assms(3) have "fsg_search_hmm_eval s = Inr (?s2\<lparr>bestscore := b1\<rparr>)"
    by (simp add: fsg_search_hmm_eval_def Let_def)
  with same_static_trans [OF st st2] show ?thesis by blast
qed

lemma add_entry_tentative:
  assumes "0 \<le> fsg_hist_entry_frame e"
  shows "entries (add_entry e h) = entries h \<and> aggregate (add_entry e h) = aggregate h \<and>
         (\<forall>x \<in> set (tentative (add_entry e h)).
            \<exists>y \<in> insert e (set (tentative h)). hist_entry_like x y)"
  using assms
  by (auto simp: add_entry_def fsg_history_entry_add_def Let_def hist_entry_like_def)

lemma like_entry_ok: "hist_entry_like x y \<Longrightarrow> entry_ok s y \<Longrightarrow> entry_ok s x"
  by (simp add: hist_entry_like_def entry_ok_def)

lemma add_entry_run_ok:
  assumes "run_ok s" and "entry_ok s e"
  shows "run_ok (s\<lparr>history := add_entry e (history s)\<rparr>)"
    (is "run_ok ?t")
proof -
  from assms have "0 \<le> fsg_hist_entry_frame e" by (simp add: run_ok_def entry_ok_def)
  note a = add_entry_tentative [OF this, of "history s"]
  have eo: "entry_ok ?t = entry_ok s" by (simp add: fun_eq_iff entry_ok_def)
  have no: "nodes_ok ?t = nodes_ok s" by (simp add: nodes_ok_def)
  from assms(1) have tent: "\<And>y. y \<in> set (tentative (history s)) \<Longrightarrow> entry_ok s y"
    by (simp add: run_ok_def)
  have te: "\<forall>x \<in> set (tentative (history ?t)). entry_ok s x"
  proof
    fix x assume "x \<in> set (tentative (history ?t))"
    with a obtain y where y: "y \<in> insert e (set (tentative (history s)))"
      and l: "hist_entry_like x y"
      by auto
    from y assms(2) tent have "entry_ok s y" by auto
    with l show "entry_ok s x" by (rule like_entry_ok)
  qed
  have ag: "aggregate_ok (history ?t)"
    using a assms(1) by (simp add: aggregate_ok_def run_ok_def)
  have en: "entries (history ?t) = entries (history s)" using a by simp
  from assms(1) te ag show ?thesis
    unfolding run_ok_def eo no en by simp
qed

lemma fold_add_entry_run_ok:
  assumes "run_ok s" and "\<forall>e \<in> set es. entry_ok s e"
  shows "run_ok (s\<lparr>history := fold add_entry es (history s)\<rparr>)"
  using assms
proof (induction es arbitrary: s)
  case Nil
  then show ?case by simp
next
  case (Cons e es)
  let ?s1 = "s\<lparr>history := add_entry e (history s)\<rparr>"
  from Cons.prems have r1: "run_ok ?s1" by (simp add: add_entry_run_ok)
  have "entry_ok ?s1 = entry_ok s" by (simp add: fun_eq_iff entry_ok_def)
  with Cons.prems(2) have "\<forall>e \<in> set es. entry_ok ?s1 e" by simp
  from Cons.IH [OF r1 this] show ?case by simp
qed

lemma pnode_exit_returns:
  assumes "run_ok s" and "fsg_pnode_leaf (pnodes s p)"
  shows "\<exists>s'. fsg_search_pnode_exit s p = Inr s' \<and> run_ok s'"
proof -
  from assms(1) have nodes: "nodes_ok s" and fr: "0 \<le> frame s"
    by (simp_all add: run_ok_def)
  from assms(1) obtain g where g: "fsg s = Some g" by (auto simp: run_ok_def)
  from nodes assms(2) obtain fl where fl: "fsg_pnode_fsglink (pnodes s p) = Some fl"
    and wid: "0 \<le> fsg_link_wid fl"
    by (auto simp: nodes_ok_def)
  from nodes have ci: "0 \<le> ci_ext (pnodes s p)" "ci_ext (pnodes s p) < 32 * int (ctxt_bvsz s)"
    and cl: "length (bv (ctxt (pnodes s p))) = ctxt_bvsz s"
    by (simp_all add: nodes_ok_def)
  have add: "run_ok (s\<lparr>history := fsg_history_entry_add (history s) (Some fl) (frame s)
                 scr prd (ci_ext (pnodes s p)) r\<rparr>)"
    if "length (bv r) = ctxt_bvsz s" for scr prd r
  proof -
    let ?e = "\<lparr>fsg_hist_entry_fsglink = Some fl, fsg_hist_entry_frame = frame s,
               fsg_hist_entry_score = scr, fsg_hist_entry_pred = prd,
               fsg_hist_entry_lc = ci_ext (pnodes s p), fsg_hist_entry_rc = r\<rparr>"
    have "entry_ok s ?e" using ci that by (simp add: entry_ok_def)
    from add_entry_run_ok [OF assms(1) this] show ?thesis by (simp add: add_entry_def)
  qed
  show ?thesis
  proof (cases "fsg_model_is_filler g (fsg_link_wid fl) \<or>
                dict_pronlen (dict s)
                  (dict_to_id (dict s) (fsg_model_word_str g (fsg_link_wid fl))) = 1")
    case True
    have "length (bv (fsg_pnode_add_all_ctxt (ctxt_bvsz s))) = ctxt_bvsz s"
      by (simp add: fsg_pnode_add_all_ctxt_def)
    from add [OF this] True assms(2) fl wid g show ?thesis
      by (auto simp: fsg_search_pnode_exit_def Let_def)
  next
    case False
    from add [OF cl] False assms(2) fl wid g show ?thesis
      by (auto simp: fsg_search_pnode_exit_def Let_def)
  qed
qed

lemma prune_prop_pnode_returns:
  assumes "run_ok s" and "next_inv cur A B s" and "p \<in> set A"
  shows "\<exists>s'. prune_prop_pnode t1 t2 t3 p s = Inr s' \<and> run_ok s'"
proof (cases "t1 \<le> hmm_bestscore (hmm (pnodes s p))")
  case False
  with assms(1) show ?thesis by (simp add: prune_prop_pnode_def Let_def)
next
  case True
  note inv = next_invD [OF assms(2)]
  from inv(5) [of p] inv(7) [OF assms(3)] inv(1)
  have ok: "\<not> (hmm_frame (hmm (pnodes s p)) \<noteq> frame s \<and>
                hmm_frame (hmm (pnodes s p)) \<noteq> frame s + 1)"
    unfolding pnode_frame_def by arith
  have r1: "run_ok (keep_active p s)"
    by (rule same_static_run_ok [OF assms(1) keep_active_static])
  have leaf1: "fsg_pnode_leaf (pnodes (keep_active p s) p) = fsg_pnode_leaf (pnodes s p)"
    using keep_active_static [of s p] by (simp add: same_static_def)
  show ?thesis
  proof (cases "fsg_pnode_leaf (pnodes s p)")
    case leaf: True
    show ?thesis
    proof (cases "t3 \<le> hmm_out_score (hmm (pnodes s p))")
      case True
      from pnode_exit_returns [OF r1] leaf leaf1 obtain s' where
        "fsg_search_pnode_exit (keep_active p s) p = Inr s'" "run_ok s'"
        by auto
      with \<open>t1 \<le> _\<close> ok leaf True show ?thesis
        by (simp add: prune_prop_pnode_def Let_def)
    next
      case False
      with \<open>t1 \<le> _\<close> ok leaf r1 show ?thesis
        by (simp add: prune_prop_pnode_def Let_def)
    qed
  next
    case leaf: False
    show ?thesis
    proof (cases "t2 \<le> hmm_out_score (hmm (pnodes s p))")
      case True
      from pnode_trans_returns [of "keep_active p s" p] leaf leaf1 obtain s' where
        "fsg_search_pnode_trans (keep_active p s) p = Inr s'" "same_static (keep_active p s) s'"
        by auto
      with \<open>t1 \<le> _\<close> ok leaf True same_static_run_ok [OF r1] show ?thesis
        by (simp add: prune_prop_pnode_def Let_def)
    next
      case False
      with \<open>t1 \<le> _\<close> ok leaf r1 show ?thesis
        by (simp add: prune_prop_pnode_def Let_def)
    qed
  qed
qed

lemma prune_prop_loop_returns:
  assumes "run_ok s" and "next_inv cur A B s" and "set ps \<subseteq> set A"
  shows "\<exists>s'. prune_prop_loop t1 t2 t3 ps s = Inr s' \<and> run_ok s'"
  using assms
proof (induction ps arbitrary: s)
  case Nil
  then show ?case by simp
next
  case (Cons p ps)
  from Cons.prems(3) have p: "p \<in> set A" and ps: "set ps \<subseteq> set A" by simp_all
  from prune_prop_pnode_returns [OF Cons.prems(1,2) p] obtain s1 where
    one: "prune_prop_pnode t1 t2 t3 p s = Inr s1" and r1: "run_ok s1"
    by blast
  from Cons.IH [OF r1 prune_prop_pnode_inv [OF one Cons.prems(2)] ps] one show ?case
    by simp
qed

lemma prune_prop_returns:
  assumes "run_ok s" and "next_inv cur (pnode_active s) B s" and "pnode_active_next s = []"
  shows "\<exists>s'. fsg_search_hmm_prune_prop s = Inr s' \<and> run_ok s'"
  using prune_prop_loop_returns [OF assms(1,2) subset_refl] assms(3)
  by (simp add: fsg_search_hmm_prune_prop_def)

lemma end_frame_run_ok:
  assumes "run_ok s"
  shows "run_ok (s\<lparr>history := fsg_history_end_frame (history s)\<rparr>)"
    (is "run_ok ?t")
proof -
  let ?h = "history s"
  have eo: "entry_ok ?t = entry_ok s" by (simp add: fun_eq_iff entry_ok_def)
  have no: "nodes_ok ?t = nodes_ok s" by (simp add: nodes_ok_def)
  from assms have agg: "aggregate_ok ?h" and tent: "\<forall>e \<in> set (tentative ?h). entry_ok s e"
    and old: "\<And>i. bpidx_start s \<le> int i \<Longrightarrow> i < length (entries ?h) \<Longrightarrow>
                  entry_ok s (entries ?h ! i)"
    by (simp_all add: run_ok_def)
  have new: "entry_ok s e" if "e \<in> set (aggregate ?h (tentative ?h))" for e
  proof -
    from agg that obtain e' where "e' \<in> set (tentative ?h)" and "hist_entry_like e e'"
      unfolding aggregate_ok_def by blast
    with tent like_entry_ok show ?thesis by blast
  qed
  have all: "entry_ok s ((entries ?h @ aggregate ?h (tentative ?h)) ! i)"
    if "bpidx_start s \<le> int i" and "i < length (entries ?h @ aggregate ?h (tentative ?h))"
    for i
  proof (cases "i < length (entries ?h)")
    case True
    with old [OF that(1)] show ?thesis by (simp add: nth_append)
  next
    case False
    with that(2) have "(entries ?h @ aggregate ?h (tentative ?h)) ! i
                          \<in> set (aggregate ?h (tentative ?h))"
      by (simp add: nth_append)
    then show ?thesis by (rule new)
  qed
  have agg': "aggregate_ok (fsg_history_end_frame ?h)"
    using agg by (simp add: aggregate_ok_def fsg_history_end_frame_def)
  from assms all agg' show ?thesis
    unfolding run_ok_def eo no by (simp add: fsg_history_end_frame_def)
qed

lemma null_entry_ok:
  assumes "null_entry s g b d = Some e'" and "entry_ok s (entries (history s) ! nat b)"
  shows "entry_ok s e'"
  using assms by (auto simp: null_entry_def Let_def entry_ok_def split: option.splits if_splits)

lemma null_prop_returns:
  assumes "run_ok s"
  shows "\<exists>s'. fsg_search_null_prop s = Inr s' \<and> run_ok s'"
proof -
  from assms obtain g where g: "fsg s = Some g" by (auto simp: run_ok_def)
  from assms have b0: "0 \<le> bpidx_start s"
    and old: "\<And>i. bpidx_start s \<le> int i \<Longrightarrow> i < length (entries (history s)) \<Longrightarrow>
                  entry_ok s (entries (history s) ! i)"
    by (simp_all add: run_ok_def)
  define bs where "bs = [bpidx_start s .. fsg_history_n_entries (history s) - 1]"
  define es where "es = concat (map (\<lambda>b. List.map_filter (null_entry s g b)
                                [0 .. fsg_model_n_state g - 1]) bs)"
  have rng: "\<forall>b \<in> set bs. 0 \<le> b \<and> b < int (length (entries (history s)))"
    using b0 by (auto simp: bs_def fsg_history_n_entries_def)
  from null_prop_entries_adds [OF rng, of "history s" "[]" g] g
  have run: "fsg_search_null_prop s = Inr (s\<lparr>history := fold add_entry es (history s)\<rparr>)"
    by (simp add: fsg_search_null_prop_def Let_def bs_def es_def)
  have "\<forall>e \<in> set es. entry_ok s e"
  proof
    fix e assume "e \<in> set es"
    then obtain b d where b: "b \<in> set bs" and e: "null_entry s g b d = Some e"
      unfolding es_def by (auto simp: List.map_filter_def)
    from b rng have "0 \<le> b" "b < int (length (entries (history s)))" by auto
    moreover from b have "bpidx_start s \<le> b" by (simp add: bs_def)
    ultimately have "bpidx_start s \<le> int (nat b)" "nat b < length (entries (history s))"
      by simp_all
    from null_entry_ok [OF e old [OF this]] show "entry_ok s e" .
  qed
  from fold_add_entry_run_ok [OF assms this] run show ?thesis by blast
qed

lemma ctxt_bit_returns:
  assumes "0 \<le> p" and "p < 32 * int (length (bv c))"
  shows "\<exists>r. ctxt_bit c p = Inr r"
proof -
  from assms have "nat (p div 32) < length (bv c)" by auto
  with assms(1) show ?thesis by (simp add: ctxt_bit_def)
qed

lemma word_trans_root_returns:
  assumes "nodes_ok s" and "entry_ok s e"
  shows "\<exists>s' tr'. word_trans_root thresh nf e b root (s, tr) = Inr (s', tr') \<and>
                  same_static s s'"
proof -
  from assms(1) have cl: "length (bv (ctxt (pnodes s root))) = ctxt_bvsz s"
    and ci: "0 \<le> ci_ext (pnodes s root)" "ci_ext (pnodes s root) < 32 * int (ctxt_bvsz s)"
    by (simp_all add: nodes_ok_def)
  from assms(2) have lc: "0 \<le> fsg_hist_entry_lc e" "fsg_hist_entry_lc e < 32 * int (ctxt_bvsz s)"
    and rl: "length (bv (fsg_hist_entry_rc e)) = ctxt_bvsz s"
    by (simp_all add: entry_ok_def)
  from ctxt_bit_returns [of "fsg_hist_entry_lc e" "ctxt (pnodes s root)"] lc cl
  obtain r1 where r1: "ctxt_bit (ctxt (pnodes s root)) (fsg_hist_entry_lc e) = Inr r1"
    by auto
  from ctxt_bit_returns [of "ci_ext (pnodes s root)" "fsg_hist_entry_rc e"] ci rl
  obtain r2 where r2: "ctxt_bit (fsg_hist_entry_rc e) (ci_ext (pnodes s root)) = Inr r2"
    by auto
  from r1 r2 show ?thesis
    by (simp add: word_trans_root_def Let_def activate_pnode_static same_static_refl)
qed

lemma word_trans_roots_returns:
  assumes "nodes_ok s" and "entry_ok s e"
  shows "\<exists>s' tr'. word_trans_roots thresh nf e b roots (s, tr) = Inr (s', tr') \<and>
                  same_static s s'"
  using assms
proof (induction roots arbitrary: s tr)
  case Nil
  show ?case by (simp add: same_static_refl)
next
  case (Cons r rs)
  from word_trans_root_returns [OF Cons.prems] obtain s1 tr1 where
    one: "word_trans_root thresh nf e b r (s, tr) = Inr (s1, tr1)" and st: "same_static s s1"
    by blast
  from st Cons.prems have "nodes_ok s1" "entry_ok s1 e"
    by (simp_all add: same_static_def nodes_ok_def entry_ok_def)
  from Cons.IH [OF this] obtain s' tr' where
    "word_trans_roots thresh nf e b rs (s1, tr1) = Inr (s', tr')" "same_static s1 s'"
    by blast
  with one same_static_trans [OF st] show ?case by auto
qed

lemma word_trans_entry_returns:
  assumes "run_ok s" and "bpidx_start s \<le> b" and "b < int (length (entries (history s)))"
  shows "\<exists>s' tr'. word_trans_entry thresh nf b (s, tr) = Inr (s', tr') \<and> same_static s s'"
proof -
  from assms(1) obtain g lt where g: "fsg s = Some g" and lt: "lextree s = Some lt"
    by (auto simp: run_ok_def)
  from assms have b0: "0 \<le> b" by (simp add: run_ok_def)
  let ?e = "fsg_history_entry_get (history s) b"
  from assms(1) have old: "\<And>i. bpidx_start s \<le> int i \<Longrightarrow> i < length (entries (history s)) \<Longrightarrow>
                  entry_ok s (entries (history s) ! i)"
    by (simp add: run_ok_def)
  from old [of "nat b"] assms(2,3) b0 have eo: "entry_ok s ?e"
    by (simp add: fsg_history_entry_get_def)
  from assms(1) have nodes: "nodes_ok s" by (simp add: run_ok_def)
  from eo have fr: "frame s = fsg_hist_entry_frame ?e" by (simp add: entry_ok_def)
  show ?thesis
    using b0 fr g lt word_trans_roots_returns [OF nodes eo]
    by (cases "fsg_hist_entry_fsglink ?e") (simp_all add: word_trans_entry_def Let_def)
qed

lemma word_trans_entries_returns:
  assumes "run_ok s"
    and "\<forall>b \<in> set bs. bpidx_start s \<le> b \<and> b < int (length (entries (history s)))"
  shows "\<exists>s' tr'. word_trans_entries thresh nf bs (s, tr) = Inr (s', tr') \<and> same_static s s'"
  using assms
proof (induction bs arbitrary: s tr)
  case Nil
  show ?case by (simp add: same_static_refl)
next
  case (Cons b bs)
  from Cons.prems(2) have "bpidx_start s \<le> b" "b < int (length (entries (history s)))"
    by simp_all
  from word_trans_entry_returns [OF Cons.prems(1) this] obtain s1 tr1 where
    one: "word_trans_entry thresh nf b (s, tr) = Inr (s1, tr1)" and st: "same_static s s1"
    by blast
  have r1: "run_ok s1" by (rule same_static_run_ok [OF Cons.prems(1) st])
  from st Cons.prems(2)
  have "\<forall>b \<in> set bs. bpidx_start s1 \<le> b \<and> b < int (length (entries (history s1)))"
    by (simp add: same_static_def)
  from Cons.IH [OF r1 this] obtain s' tr' where
    "word_trans_entries thresh nf bs (s1, tr1) = Inr (s', tr')" "same_static s1 s'"
    by blast
  with one same_static_trans [OF st] show ?case by auto
qed

lemma word_trans_returns:
  assumes "run_ok s"
  shows "\<exists>s' calls. fsg_search_word_trans s = Inr (s', calls) \<and> same_static s s'"
proof -
  have "\<forall>b \<in> set [bpidx_start s .. fsg_history_n_entries (history s) - 1].
          bpidx_start s \<le> b \<and> b < int (length (entries (history s)))"
    by (auto simp: fsg_history_n_entries_def)
  from word_trans_entries_returns [OF assms this, of "bestscore s + beam s" "frame s + 1" "[]"]
  show ?thesis
    by (auto simp: fsg_search_word_trans_def Let_def)
qed

lemma step_deactivate_returns:
  assumes "distinct ps"
    and "\<forall>p \<in> set ps. pnode_frame s p = frame s \<or> pnode_frame s p = frame s + 1"
  shows "\<exists>s'. step_deactivate ps s = Inr s' \<and> same_static s s'"
  using assms
proof (induction ps arbitrary: s)
  case Nil
  show ?case by (simp add: same_static_refl)
next
  case (Cons q ps)
  let ?s1 = "s\<lparr>pnodes := (pnodes s)(q := fsg_psubtree_pnode_deactivate (pnodes s q))\<rparr>"
  from Cons.prems(1) have q: "q \<notin> set ps" and d: "distinct ps" by simp_all
  have st: "same_static s ?s1"
    by (simp add: same_static_def fsg_psubtree_pnode_deactivate_def)
  show ?case
  proof (cases "hmm_frame (hmm (pnodes s q)) = frame s")
    case True
    have "\<forall>p \<in> set ps. pnode_frame ?s1 p = frame ?s1 \<or> pnode_frame ?s1 p = frame ?s1 + 1"
      using Cons.prems(2) q by (auto simp: pnode_frame_def)
    from Cons.IH [OF d this] obtain s' where
      "step_deactivate ps ?s1 = Inr s'" "same_static ?s1 s'"
      by blast
    with True same_static_trans [OF st] show ?thesis by auto
  next
    case False
    with Cons.prems(2) have nf: "hmm_frame (hmm (pnodes s q)) = frame s + 1"
      by (simp add: pnode_frame_def)
    from Cons.prems(2) have "\<forall>p \<in> set ps. pnode_frame s p = frame s \<or> pnode_frame s p = frame s + 1"
      by simp
    from Cons.IH [OF d this] False nf show ?thesis by simp
  qed
qed


lemma pnode_exit_keeps:
  "fsg_search_pnode_exit s p = Inr s' \<Longrightarrow> fsg s' = fsg s \<and> lextree s' = lextree s"
  by (auto simp: fsg_search_pnode_exit_def Let_def split: option.splits if_splits)

lemma prune_prop_pnode_keeps:
  assumes "prune_prop_pnode t1 t2 t3 p s = Inr s'"
  shows "fsg s' = fsg s \<and> lextree s' = lextree s"
proof -
  have k: "fsg (keep_active p s) = fsg s \<and> lextree (keep_active p s) = lextree s"
    using keep_active_static [of s p] by (simp add: same_static_def)
  have "fsg s'' = fsg (keep_active p s) \<and> lextree s'' = lextree (keep_active p s)"
    if "fsg_search_pnode_trans (keep_active p s) p = Inr s''" for s''
    using that pnode_trans_returns [of "keep_active p s" p]
    by (auto simp: fsg_search_pnode_trans_def same_static_def split: if_splits)
  with assms k pnode_exit_keeps [of "keep_active p s" p s'] show ?thesis
    by (auto simp: prune_prop_pnode_def Let_def split: if_splits)
qed

lemma prune_prop_loop_keeps:
  "prune_prop_loop t1 t2 t3 ps s = Inr s' \<Longrightarrow> fsg s' = fsg s \<and> lextree s' = lextree s"
proof (induction ps arbitrary: s)
  case Nil
  then show ?case by simp
next
  case (Cons p ps)
  from Cons.prems obtain s1 where one: "prune_prop_pnode t1 t2 t3 p s = Inr s1"
    and rest: "prune_prop_loop t1 t2 t3 ps s1 = Inr s'"
    by (auto split: sum.splits)
  from Cons.IH [OF rest] prune_prop_pnode_keeps [OF one] show ?case by simp
qed

lemma prune_prop_keeps:
  "fsg_search_hmm_prune_prop s = Inr s' \<Longrightarrow> fsg s' = fsg s \<and> lextree s' = lextree s"
  by (auto simp: fsg_search_hmm_prune_prop_def dest: prune_prop_loop_keeps split: if_splits)

lemma step_returns:
  assumes "step_inv s" and "step_ready s"
  shows "\<exists>s'. fsg_search_step s senscr am = Inr (1, s') \<and>
              fsg s' = fsg s \<and> lextree s' = lextree s \<and> tentative (history s') = [] \<and>
              aggregate_ok (history s') \<and> nodes_ok s'"
proof -
  let ?cur = "frame s" and ?A = "pnode_active s" and ?B = "set (pnode_active s)"
  from assms(2) obtain lt where nz: "n_feat_frame (acmod s) \<noteq> 0"
    and g: "fsg s \<noteq> None" and lt: "lextree s = Some lt"
    and cnt: "int (length (pnode_active s)) \<le> fsg_lextree_n_pnode lt"
    and tent: "tentative (history s) = []" and agg: "aggregate_ok (history s)"
    and nodes: "nodes_ok s"
    by (auto simp: step_ready_def split: option.splits)
  from assms(1) have cur: "0 \<le> ?cur" and dA: "distinct ?A"
    and act: "\<forall>p \<in> set ?A. hmm_frame (hmm (pnodes s p)) = frame s"
    by (simp_all add: step_inv_def)
  have sen: "(if \<not> compallsen (acmod s) then fsg_search_sen_active s else Inr s) = Inr s"
    using act by (simp add: fsg_search_sen_active_def list_all_iff)
  define s1 where "s1 = s\<lparr>acmod := am, n_sen_eval := n_sen_eval s + n_senone_active am,
                      hmmctx := senscr,
                      bpidx_start := fsg_history_n_entries (history s)\<rparr>"
  have sched1: "same_sched s s1"
    by (simp add: s1_def same_sched_def pnode_frame_def [abs_def])
  have "nodes_ok s1 = nodes_ok s" by (simp add: s1_def nodes_ok_def)
  with cur g lt tent agg nodes have r1: "run_ok s1"
    by (auto simp: run_ok_def s1_def fsg_history_n_entries_def)
  have i1: "next_inv ?cur ?A ?B s1"
    by (rule next_inv_same_sched [OF step_inv_next_inv [OF assms(1)] sched1])
  have act1: "\<forall>p \<in> set (pnode_active s1). hmm_frame (hmm (pnodes s1 p)) = frame s1"
    using act by (simp add: s1_def)
  have lt1: "lextree s1 = Some lt" and cnt1: "int (length (pnode_active s1)) \<le> fsg_lextree_n_pnode lt"
    using lt cnt by (simp_all add: s1_def)
  from hmm_eval_returns [OF act1 lt1 cnt1] obtain s2 where
    e2: "fsg_search_hmm_eval s1 = Inr s2" and st2: "same_static s1 s2"
    by blast
  have r2: "run_ok s2" by (rule same_static_run_ok [OF r1 st2])
  have i2: "next_inv ?cur ?A ?B s2"
    by (rule next_inv_same_sched [OF i1 hmm_eval_sched [OF e2]])
  from hmm_eval_sched [OF e2] sched1 assms(1)
  have nx2: "pnode_active_next s2 = []" and a2: "pnode_active s2 = ?A"
    by (simp_all add: same_sched_def step_inv_def)
  from i2 a2 have i2': "next_inv ?cur (pnode_active s2) ?B s2" by simp
  from prune_prop_returns [OF r2 i2' nx2] obtain s3 where
    e3: "fsg_search_hmm_prune_prop s2 = Inr s3" and r3: "run_ok s3"
    by blast
  have i3: "next_inv ?cur ?A ?B s3" by (rule prune_prop_inv [OF e3 i2])
  define s3c where "s3c = s3\<lparr>history := fsg_history_end_frame (history s3)\<rparr>"
  have r3c: "run_ok s3c" unfolding s3c_def by (rule end_frame_run_ok [OF r3])
  have c3: "same_sched s3 s3c"
    by (simp add: s3c_def same_sched_def pnode_frame_def [abs_def])
  from null_prop_returns [OF r3c] obtain s4 where
    e4: "fsg_search_null_prop s3c = Inr s4" and r4: "run_ok s4"
    by blast
  have i4: "next_inv ?cur ?A ?B s4"
    using i3 c3 null_prop_sched [OF e4] by (blast intro: next_inv_same_sched)
  define s4c where "s4c = s4\<lparr>history := fsg_history_end_frame (history s4)\<rparr>"
  have r4c: "run_ok s4c" unfolding s4c_def by (rule end_frame_run_ok [OF r4])
  have c4: "same_sched s4 s4c"
    by (simp add: s4c_def same_sched_def pnode_frame_def [abs_def])
  have t4c: "tentative (history s4c) = []"
    by (simp add: s4c_def fsg_history_end_frame_def)
  from word_trans_returns [OF r4c] obtain s5 calls where
    e5: "fsg_search_word_trans s4c = Inr (s5, calls)" and st5: "same_static s4c s5"
    by blast
  have i5: "next_inv ?cur ?A ?B s5"
    by (rule word_trans_inv [OF e5 next_inv_same_sched [OF i4 c4]])
  note inv = next_invD [OF i5]
  have "\<forall>p \<in> set (pnode_active s5). pnode_frame s5 p = frame s5 \<or> pnode_frame s5 p = frame s5 + 1"
  proof
    fix p assume "p \<in> set (pnode_active s5)"
    with inv(2) have "p \<in> set ?A" by simp
    from inv(7) [OF this] inv(5) [of p] inv(1)
    show "pnode_frame s5 p = frame s5 \<or> pnode_frame s5 p = frame s5 + 1" by arith
  qed
  from step_deactivate_returns [OF _ this] dA inv(2) obtain s6 where
    e6: "step_deactivate (pnode_active s5) s5 = Inr s6" and st6: "same_static s5 s6"
    by auto
  let ?s' = "s6\<lparr>pnode_active := pnode_active_next s6, pnode_active_next := [],
                 frame := frame s6 + 1\<rparr>"
  from nz sen e2 e3 e4 e5 e6 have run: "fsg_search_step s senscr am = Inr (1, ?s')"
    unfolding fsg_search_step_def Let_def s1_def s3c_def s4c_def by simp
  have r6: "run_ok s6"
    by (rule same_static_run_ok [OF r4c same_static_trans [OF st5 st6]])
  have h6: "history s6 = history s4c"
    using st5 st6 by (simp add: same_static_def)
  have "nodes_ok ?s' = nodes_ok s6" by (simp add: nodes_ok_def)
  with r6 have n': "nodes_ok ?s'" and a': "aggregate_ok (history ?s')"
    by (simp_all add: run_ok_def)
  have t': "tentative (history ?s') = []" using h6 t4c by simp
  have g1: "fsg s1 = fsg s" "lextree s1 = lextree s" by (simp_all add: s1_def)
  from e3 have st3: "fsg s3 = fsg s2 \<and> lextree s3 = lextree s2"
    by (rule prune_prop_keeps)
  from e4 have st4: "fsg s4 = fsg s3c \<and> lextree s4 = lextree s3c"
    by (auto simp: fsg_search_null_prop_def Let_def split: sum.splits)
  have f': "fsg ?s' = fsg s" "lextree ?s' = lextree s"
    using st2 st3 st4 st5 st6 g1 by (simp_all add: same_static_def s3c_def s4c_def)
  from run n' a' t' f' show ?thesis by blast
qed

text \<open>
  C6: let the invariant \<open>step_inv\<close> hold, as it does after \<open>fsg_search_start\<close> on a
  lextree whose nodes are all inactive (\<open>start_step_inv\<close> below) and after every step
  by this theorem. If the decoder is ready for the frame (\<open>step_ready\<close>), then
  \<open>fsg_search_step\<close> returns 1, and what it leaves is ready for the next frame as soon
  as there is one and the active nodes do not outnumber the nodes of the lextree: the
  grammar and the lextree are the same, nothing is tentative, and \<open>aggregate_ok\<close> and
  \<open>nodes_ok\<close> hold. And whenever \<open>fsg_search_step\<close> returns 1, the frame
  has advanced by one, \<open>pnode_active_next\<close> is empty, \<open>pnode_active\<close> holds exactly
  the nodes whose HMM \<open>frame\<close> is the new current frame, no node is left at the old
  frame, and every node of the old active list that is not in the new one has been
  deactivated; the invariant holds again.
\<close>

theorem step_active_sets:
  assumes "step_inv s"
  shows "(step_ready s \<longrightarrow>
            (\<exists>s'. fsg_search_step s senscr am = Inr (1, s') \<and>
                  fsg s' = fsg s \<and> lextree s' = lextree s \<and> tentative (history s') = [] \<and>
                  aggregate_ok (history s') \<and> nodes_ok s')) \<and>
         (\<forall>s'. fsg_search_step s senscr am = Inr (1, s') \<longrightarrow>
            step_inv s' \<and> frame s' = frame s + 1 \<and>
            pnode_active_next s' = [] \<and>
            (\<forall>p. hmm_frame (hmm (pnodes s' p)) = frame s' \<longleftrightarrow> p \<in> set (pnode_active s')) \<and>
            (\<forall>p. hmm_frame (hmm (pnodes s' p)) \<noteq> frame s) \<and>
            (\<forall>p \<in> set (pnode_active s). p \<notin> set (pnode_active s') \<longrightarrow>
               hmm (pnodes s' p) = hmm (fsg_psubtree_pnode_deactivate (pnodes s p))))"
proof (rule conjI)
  show "step_ready s \<longrightarrow>
          (\<exists>s'. fsg_search_step s senscr am = Inr (1, s') \<and>
                fsg s' = fsg s \<and> lextree s' = lextree s \<and> tentative (history s') = [] \<and>
                aggregate_ok (history s') \<and> nodes_ok s')"
    using step_returns [OF assms] by blast
  show "\<forall>s'. fsg_search_step s senscr am = Inr (1, s') \<longrightarrow>
            step_inv s' \<and> frame s' = frame s + 1 \<and>
            pnode_active_next s' = [] \<and>
            (\<forall>p. hmm_frame (hmm (pnodes s' p)) = frame s' \<longleftrightarrow> p \<in> set (pnode_active s')) \<and>
            (\<forall>p. hmm_frame (hmm (pnodes s' p)) \<noteq> frame s) \<and>
            (\<forall>p \<in> set (pnode_active s). p \<notin> set (pnode_active s') \<longrightarrow>
               hmm (pnodes s' p) = hmm (fsg_psubtree_pnode_deactivate (pnodes s p)))"
  proof (rule allI, rule impI)
    fix s' assume "fsg_search_step s senscr am = Inr (1, s')"
    from step_result [OF assms this] show
      "step_inv s' \<and> frame s' = frame s + 1 \<and>
       pnode_active_next s' = [] \<and>
       (\<forall>p. hmm_frame (hmm (pnodes s' p)) = frame s' \<longleftrightarrow> p \<in> set (pnode_active s')) \<and>
       (\<forall>p. hmm_frame (hmm (pnodes s' p)) \<noteq> frame s) \<and>
       (\<forall>p \<in> set (pnode_active s). p \<notin> set (pnode_active s') \<longrightarrow>
          hmm (pnodes s' p) = hmm (fsg_psubtree_pnode_deactivate (pnodes s p)))" .
  qed
qed

lemma start_step_inv:
  assumes "\<forall>p. hmm_frame (hmm (pnodes s p)) < 0"
    and "fsg_search_start s = Inr (0, s')"
  shows "step_inv s' \<and> frame s' = 0"
proof -
  define s4 where "s4 =
    s\<lparr>beam_factor := f32_one, beam := beam_orig s, pbeam := pbeam_orig s,
      wbeam := wbeam_orig s,
      history := fsg_history_utt_start (fsg_history_reset (history s)),
      final := False, frame := -1, bestscore := 0,
      history := fsg_history_entry_add
        (fsg_history_utt_start (fsg_history_reset (history s))) None (-1) 0 (-1)
        (sil_ciphone_id (acmod s)) (fsg_pnode_add_all_ctxt (ctxt_bvsz s)),
      bpidx_start := 0\<rparr>"
  from assms(2) have empty: "pnode_active s = []" "pnode_active_next s = []"
    by (auto simp: fsg_search_start_def Let_def split: if_splits)
  from assms(2) empty have rest:
    "(case fsg_search_null_prop s4 of
        Inl e \<Rightarrow> Inl e
      | Inr s5 \<Rightarrow>
          (case fsg_search_word_trans s5 of
             Inl e \<Rightarrow> Inl e
           | Inr (s6, calls) \<Rightarrow>
               Inr (0::int, s6\<lparr>pnode_active := pnode_active_next s6,
                          pnode_active_next := [],
                          frame := frame s6 + 1,
                          n_hmm_eval := 0, n_sen_eval := 0\<rparr>))) = Inr (0, s')"
    unfolding fsg_search_start_def Let_def s4_def by simp
  then obtain s5 where e5: "fsg_search_null_prop s4 = Inr s5"
    by (cases "fsg_search_null_prop s4") simp_all
  with rest obtain s6 calls where e6: "fsg_search_word_trans s5 = Inr (s6, calls)"
    by (cases "fsg_search_word_trans s5") auto
  with rest e5 have s': "s' = s6\<lparr>pnode_active := pnode_active_next s6,
      pnode_active_next := [], frame := frame s6 + 1, n_hmm_eval := 0, n_sen_eval := 0\<rparr>"
    by simp
  have fr4: "pnode_frame s4 p = hmm_frame (hmm (pnodes s p))" for p
    by (simp add: s4_def pnode_frame_def)
  have i4: "next_inv (-1) [] UNIV s4"
  proof (rule next_invI)
    show "pnode_frame s4 p = - 1 + 1 \<longleftrightarrow> p \<in> set (pnode_active_next s4)" for p
      unfolding fr4 using assms(1) [rule_format, of p] empty by (simp add: s4_def)
    show "pnode_frame s4 p \<le> - 1 + 1" for p
      unfolding fr4 using assms(1) [rule_format, of p] by simp
  qed (simp_all add: s4_def empty)
  have i6: "next_inv (-1) [] UNIV s6"
    using word_trans_inv [OF e6 next_inv_same_sched [OF i4 null_prop_sched [OF e5]]] by simp
  note inv = next_invD [OF i6]
  have "hmm_frame (hmm (pnodes s' p)) = pnode_frame s6 p" for p
    by (simp add: s' pnode_frame_def)
  then show ?thesis
    unfolding step_inv_def using inv by (simp add: s')
qed


lemma demo_idle_inactive: "\<forall>p. hmm_frame (hmm (pnodes demo_idle p)) < 0"
  by (simp add: demo_idle_def idle_search_def demo_pnodes_def idle_pnode_def)

lemma step_inv_after_start: "step_inv after_start"
  using start_step_inv [OF demo_idle_inactive, of after_start]
  by (simp add: start_demo_idle after_start_eq [symmetric])

lemma step_inv_narrow_beam: "step_inv narrow_beam"
  using step_inv_after_start by (simp add: narrow_beam_def step_inv_def)

lemma aggregate_ok_remdups: "aggregate h = remdups \<Longrightarrow> aggregate_ok h"
  by (auto simp: aggregate_ok_def hist_entry_like_def)

lemma step_ready_after_start: "step_ready after_start"
  by (auto simp: step_ready_def nodes_ok_def aggregate_ok_remdups after_start_eq fixture_defs)

lemma step_ready_narrow_beam: "step_ready narrow_beam"
  using step_ready_after_start
  by (auto simp: narrow_beam_def step_ready_def nodes_ok_def split: option.splits)

lemma step_narrow_beam:
  "\<exists>s'. fsg_search_step narrow_beam demo_senscr (acmod narrow_beam) = Inr (1, s') \<and>
        pnode_active s' = [2] \<and> frame s' = 1 \<and> bestscore s' = -13 \<and>
        hmm_frame (hmm (pnodes s' 0)) = -1 \<and> hmm_frame (hmm (pnodes s' 2)) = 1"
  by (simp add: narrow_beam_def after_start_eq fixture_defs demo_senscr_def
        fsg_search_step_def fsg_search_hmm_eval_def hmm_vit_eval_def adjust_beams_def
        fsg_search_hmm_prune_prop_def prune_prop_pnode_def keep_active_def
        fsg_search_pnode_trans_def pnode_trans_child_def activate_pnode_def hmm_enter_def
        fsg_search_null_prop_def fsg_search_word_trans_def fsg_history_end_frame_def
        fsg_history_n_entries_def fsg_psubtree_pnode_deactivate_def
        Let_def WORST_SCORE_def f32_one_def)

lemma step_after_start_eq:
  "fsg_search_step after_start demo_senscr (acmod after_start) =
     Inr (1, after_start\<lparr>hmmctx := demo_senscr,
       pnodes := (pnodes after_start)
         (2 := (demo_pnodes 2)\<lparr>hmm :=
                  \<lparr>hmm_in_score = -13, hmm_in_history = 1, hmm_out_score = -43,
                   hmm_out_history = 1, hmm_bestscore = -13, hmm_frame = 1\<rparr>\<rparr>,
          0 := (demo_pnodes 0)\<lparr>hmm :=
                  \<lparr>hmm_in_score = -20, hmm_in_history = 0, hmm_out_score = -50,
                   hmm_out_history = 0, hmm_bestscore = -20, hmm_frame = 1\<rparr>\<rparr>,
          3 := (demo_pnodes 3)\<lparr>hmm := hmm_enter (hmm idle_pnode) (-57) 0 1\<rparr>),
       pnode_active := [3, 0, 2], frame := 1, bestscore := -13, bpidx_start := 2,
       n_hmm_eval := 2\<rparr>)"
  by (simp add: after_start_eq fixture_defs demo_senscr_def
        fsg_search_step_def fsg_search_hmm_eval_def hmm_vit_eval_def adjust_beams_def
        fsg_search_hmm_prune_prop_def prune_prop_pnode_def keep_active_def
        fsg_search_pnode_trans_def pnode_trans_child_def activate_pnode_def hmm_enter_def
        fsg_search_null_prop_def fsg_search_word_trans_def fsg_history_end_frame_def
        fsg_history_n_entries_def fsg_psubtree_pnode_deactivate_def
        Let_def WORST_SCORE_def f32_one_def)

lemma frame_one_eq:
  "frame_one = after_start\<lparr>hmmctx := demo_senscr,
       pnodes := (pnodes after_start)
         (2 := (demo_pnodes 2)\<lparr>hmm :=
                  \<lparr>hmm_in_score = -13, hmm_in_history = 1, hmm_out_score = -43,
                   hmm_out_history = 1, hmm_bestscore = -13, hmm_frame = 1\<rparr>\<rparr>,
          0 := (demo_pnodes 0)\<lparr>hmm :=
                  \<lparr>hmm_in_score = -20, hmm_in_history = 0, hmm_out_score = -50,
                   hmm_out_history = 0, hmm_bestscore = -20, hmm_frame = 1\<rparr>\<rparr>,
          3 := (demo_pnodes 3)\<lparr>hmm := hmm_enter (hmm idle_pnode) (-57) 0 1\<rparr>),
       pnode_active := [3, 0, 2], frame := 1, bestscore := -13, bpidx_start := 2,
       n_hmm_eval := 2\<rparr>"
  by (simp add: frame_one_def step_after_start_eq)

lemma step_frame_one:
  "\<exists>s'. fsg_search_step frame_one demo_senscr (acmod frame_one) = Inr (1, s') \<and>
        pnode_active s' = [2, 0, 3] \<and> frame s' = 2 \<and>
        entries (history s') = entries (history frame_one) @
          [\<lparr>fsg_hist_entry_fsglink = fsg_pnode_fsglink (demo_pnodes 3),
            fsg_hist_entry_frame = 1, fsg_hist_entry_score = -87, fsg_hist_entry_pred = 0,
            fsg_hist_entry_lc = 5, fsg_hist_entry_rc = \<lparr>bv = [-1]\<rparr>\<rparr>]"
  by (simp add: frame_one_eq after_start_eq fixture_defs demo_senscr_def
        fsg_search_step_def fsg_search_hmm_eval_def hmm_vit_eval_def adjust_beams_def
        fsg_search_hmm_prune_prop_def prune_prop_pnode_def keep_active_def
        fsg_search_pnode_trans_def pnode_trans_child_def activate_pnode_def hmm_enter_def
        fsg_search_pnode_exit_def fsg_history_entry_add_def
        fsg_search_null_prop_def fsg_search_word_trans_def word_trans_entry_def
        fsg_history_end_frame_def fsg_history_entry_get_def
        fsg_history_n_entries_def fsg_psubtree_pnode_deactivate_def upto.simps
        Let_def WORST_SCORE_def f32_one_def)

lemma step_ready_frame_one: "step_ready frame_one"
  by (auto simp: step_ready_def nodes_ok_def aggregate_ok_remdups frame_one_eq after_start_eq
        fixture_defs)

theorem step_active_sets_witness:
  "step_inv after_start \<and> step_ready after_start \<and>
   fsg_search_step after_start demo_senscr (acmod after_start) = Inr (1, frame_one) \<and>
   pnode_active after_start = [2, 0] \<and> pnode_active frame_one = [3, 0, 2] \<and>
   frame frame_one = 1 \<and> pnode_active_next frame_one = [] \<and>
   step_inv frame_one \<and> step_ready frame_one \<and>
   (\<exists>s'. fsg_search_step frame_one demo_senscr (acmod frame_one) = Inr (1, s') \<and>
         pnode_active s' = [2, 0, 3] \<and> frame s' = 2 \<and> pnode_active_next s' = [] \<and>
         step_inv s' \<and> tentative (history s') = [] \<and>
         map fsg_hist_entry_frame (entries (history s')) = [-1, -1, 1]) \<and>
   step_inv narrow_beam \<and> step_ready narrow_beam \<and> pnode_active narrow_beam = [2, 0] \<and>
   (\<exists>s'. fsg_search_step narrow_beam demo_senscr (acmod narrow_beam) = Inr (1, s') \<and>
         pnode_active s' = [2] \<and> frame s' = 1 \<and> pnode_active_next s' = [] \<and>
         step_inv s' \<and>
         hmm (pnodes s' 0) = hmm (fsg_psubtree_pnode_deactivate (pnodes narrow_beam 0)) \<and>
         hmm_frame (hmm (pnodes s' 0)) = -1 \<and> hmm_frame (hmm (pnodes s' 2)) = 1)"
proof -
  note one = step_active_sets [OF step_inv_after_start, of demo_senscr "acmod after_start"]
  from one step_ready_after_start obtain s1 where
    "fsg_search_step after_start demo_senscr (acmod after_start) = Inr (1, s1)"
    by blast
  then have run1:
    "fsg_search_step after_start demo_senscr (acmod after_start) = Inr (1, frame_one)"
    by (simp add: frame_one_def)
  have act1: "pnode_active after_start = [2, 0]" "pnode_active frame_one = [3, 0, 2]"
    "frame frame_one = 1"
    by (simp_all add: frame_one_eq after_start_eq)
  from one run1 have res1: "step_inv frame_one" "pnode_active_next frame_one = []"
    by blast+
  note three = step_active_sets [OF res1(1), of demo_senscr "acmod frame_one"]
  from three step_ready_frame_one obtain s3 where
    run3: "fsg_search_step frame_one demo_senscr (acmod frame_one) = Inr (1, s3)"
    and tent3: "tentative (history s3) = []"
    by blast
  from step_frame_one run3 have act3: "pnode_active s3 = [2, 0, 3]" "frame s3 = 2"
    "map fsg_hist_entry_frame (entries (history s3)) = [-1, -1, 1]"
    by (auto simp: frame_one_eq after_start_eq dummy_entry_def)
  from three run3 have res3: "step_inv s3" "pnode_active_next s3 = []"
    by blast+
  note two = step_active_sets [OF step_inv_narrow_beam, of demo_senscr "acmod narrow_beam"]
  from two step_ready_narrow_beam obtain s2 where
    run2: "fsg_search_step narrow_beam demo_senscr (acmod narrow_beam) = Inr (1, s2)"
    by blast
  from step_narrow_beam run2 have act2: "pnode_active s2 = [2]" "frame s2 = 1"
    "hmm_frame (hmm (pnodes s2 0)) = -1" "hmm_frame (hmm (pnodes s2 2)) = 1"
    by auto
  have old: "pnode_active narrow_beam = [2, 0]"
    by (simp add: narrow_beam_def after_start_eq)
  from two run2 have res2: "step_inv s2" "pnode_active_next s2 = []"
    and gone: "\<forall>p \<in> set (pnode_active narrow_beam). p \<notin> set (pnode_active s2) \<longrightarrow>
       hmm (pnodes s2 p) = hmm (fsg_psubtree_pnode_deactivate (pnodes narrow_beam p))"
    by blast+
  from gone old act2(1)
  have off: "hmm (pnodes s2 0) = hmm (fsg_psubtree_pnode_deactivate (pnodes narrow_beam 0))"
    by simp
  have ex3: "\<exists>s'. fsg_search_step frame_one demo_senscr (acmod frame_one) = Inr (1, s') \<and>
         pnode_active s' = [2, 0, 3] \<and> frame s' = 2 \<and> pnode_active_next s' = [] \<and>
         step_inv s' \<and> tentative (history s') = [] \<and>
         map fsg_hist_entry_frame (entries (history s')) = [-1, -1, 1]"
    by (rule exI [of _ s3]) (simp add: run3 act3 res3 tent3)
  have ex2: "\<exists>s'. fsg_search_step narrow_beam demo_senscr (acmod narrow_beam) = Inr (1, s') \<and>
         pnode_active s' = [2] \<and> frame s' = 1 \<and> pnode_active_next s' = [] \<and>
         step_inv s' \<and>
         hmm (pnodes s' 0) = hmm (fsg_psubtree_pnode_deactivate (pnodes narrow_beam 0)) \<and>
         hmm_frame (hmm (pnodes s' 0)) = -1 \<and> hmm_frame (hmm (pnodes s' 2)) = 1"
    by (rule exI [of _ s2])
       (simp add: run2 act2 res2 off [symmetric])
  from step_inv_after_start step_ready_after_start run1 act1 res1 step_ready_frame_one ex3
    step_inv_narrow_beam step_ready_narrow_beam old ex2
  show ?thesis by simp
qed

subsection \<open>The beam controller\<close>

lemma hmm_eval_loop_count:
  "hmm_eval_loop ps (s, n, b) = Inr (s', n', b') \<Longrightarrow>
     n' = n + int (length ps) \<and> maxhmmpf s' = maxhmmpf s \<and> beam_factor s' = beam_factor s \<and>
     beam s' = beam s \<and> pbeam s' = pbeam s \<and> wbeam s' = wbeam s \<and>
     beam_orig s' = beam_orig s \<and> pbeam_orig s' = pbeam_orig s \<and> wbeam_orig s' = wbeam_orig s"
proof (induction ps arbitrary: s n b)
  case Nil
  then show ?case by simp
next
  case (Cons p ps)
  let ?s1 = "s\<lparr>pnodes := (pnodes s)(p := (pnodes s p)
               \<lparr>hmm := hmm_vit_eval (hmmctx s) (hmm (pnodes s p))\<rparr>)\<rparr>"
  from Cons.prems obtain b1 where "hmm_eval_loop ps (?s1, n + 1, b1) = Inr (s', n', b')"
    by (auto simp: Let_def split: if_splits)
  from Cons.IH [OF this] show ?case by simp
qed

lemma hmm_eval_no_active:
  "pnode_active s = [] \<Longrightarrow> fsg_search_hmm_eval s = Inr s"
  by (simp add: fsg_search_hmm_eval_def)

lemma hmm_eval_adjusts:
  assumes "pnode_active s \<noteq> []" and "fsg_search_hmm_eval s = Inr s'"
  shows "beam_orig s' = beam_orig s \<and> pbeam_orig s' = pbeam_orig s \<and>
         wbeam_orig s' = wbeam_orig s \<and>
         (if maxhmmpf s \<noteq> -1 \<and> maxhmmpf s < int (length (pnode_active s)) then
            (if f32_gt_0_1 (beam_factor s) then
               beam_factor s' = f32_mul (beam_factor s) f32_0_9 \<and>
               beam s' = scale_beam (beam_orig s) (beam_factor s') \<and>
               pbeam s' = scale_beam (pbeam_orig s) (beam_factor s') \<and>
               wbeam s' = scale_beam (wbeam_orig s) (beam_factor s')
             else
               beam_factor s' = beam_factor s \<and> beam s' = beam s \<and>
               pbeam s' = pbeam s \<and> wbeam s' = wbeam s)
          else
            beam_factor s' = f32_one \<and> beam s' = beam_orig s \<and>
            pbeam s' = pbeam_orig s \<and> wbeam s' = wbeam_orig s)"
proof -
  from assms obtain s1 n b where
    loop: "hmm_eval_loop (pnode_active s) (s, 0, WORST_SCORE) = Inr (s1, n, b)"
    and s': "s' = (adjust_beams n (s1\<lparr>n_hmm_eval := n_hmm_eval s1 + n\<rparr>))\<lparr>bestscore := b\<rparr>"
    by (auto simp: fsg_search_hmm_eval_def Let_def split: sum.splits option.splits if_splits)
  from hmm_eval_loop_count [OF loop] show ?thesis
    by (simp add: s' adjust_beams_def Let_def)
qed

text \<open>
  C2, as the code has it. In a frame with active HMMs in which \<open>fsg_search_hmm_eval\<close>
  returns, the original beams stay, and with \<open>n\<close> the number of active HMMs: if
  \<open>maxhmmpf\<close> is not \<open>-1\<close> and \<open>n\<close> exceeds it, then a beam factor above \<open>0.1\<close> is
  multiplied by \<open>0.9f\<close> and each live beam becomes its original times the new factor,
  cast to int32, while a beam factor at or below \<open>0.1\<close> and the live beams stay as they
  are; otherwise the beam factor is reset to \<open>1.0\<close> and the live beams to their
  originals. (Without active HMMs the function changes nothing: \<open>hmm_eval_no_active\<close>.)
\<close>

theorem hmm_eval_beams:
  assumes "pnode_active s \<noteq> []" and "fsg_search_hmm_eval s = Inr s'"
  shows "beam_orig s' = beam_orig s \<and> pbeam_orig s' = pbeam_orig s \<and>
         wbeam_orig s' = wbeam_orig s \<and>
         (if maxhmmpf s \<noteq> -1 \<and> maxhmmpf s < int (length (pnode_active s)) then
            (if f32_gt_0_1 (beam_factor s) then
               beam_factor s' = f32_mul (beam_factor s) f32_0_9 \<and>
               beam s' = scale_beam (beam_orig s) (beam_factor s') \<and>
               pbeam s' = scale_beam (pbeam_orig s) (beam_factor s') \<and>
               wbeam s' = scale_beam (wbeam_orig s) (beam_factor s')
             else
               beam_factor s' = beam_factor s \<and> beam s' = beam s \<and>
               pbeam s' = pbeam s \<and> wbeam s' = wbeam s)
          else
            beam_factor s' = f32_one \<and> beam s' = beam_orig s \<and>
            pbeam s' = pbeam_orig s \<and> wbeam s' = wbeam_orig s)"
  using assms by (rule hmm_eval_adjusts)

lemma bitlen_numeral:
  "bitlen 0 = 0"
  "bitlen (Suc 0) = Suc 0"
  "bitlen (numeral Num.One) = Suc 0"
  "bitlen (numeral (Num.Bit0 n)) = Suc (bitlen (numeral n))"
  "bitlen (numeral (Num.Bit1 n)) = Suc (bitlen (numeral n))"
  by (subst bitlen.simps, simp add: bitlen.simps [of 0])+

lemmas f32_eval =
  bitlen_numeral f32_mul_def f32_round_def f32_0_9_def f32_one_def f32_of_int32_def
  f32_to_int32_def scale_beam_def f32_gt_0_1_def f64_0_1_def dyadic_less_def Let_def

lemma crowd_crowded: "crowd crowded"
  by (simp add: crowd_def crowded_def after_start_eq demo_idle_def idle_search_def
        pnode_frame_def hmm_enter_def)

lemma crowd_hmm_eval:
  assumes "crowd s"
  shows "\<exists>s'. fsg_search_hmm_eval s = Inr s' \<and> crowd s' \<and>
              beam_factor s' = reduce_factor (beam_factor s)"
proof -
  from assms have act: "pnode_active s = [2, 0]" and fr: "frame s = 0"
    and f2: "hmm_frame (hmm (pnodes s 2)) = 0" and f0: "hmm_frame (hmm (pnodes s 0)) = 0"
    and lt: "lextree s = Some demo_lextree" and cap: "maxhmmpf s = 1"
    by (simp_all add: crowd_def pnode_frame_def)
  obtain s1 b where loop: "hmm_eval_loop (pnode_active s) (s, 0, WORST_SCORE) = Inr (s1, 2, b)"
    by (simp add: act fr f2 f0 Let_def hmm_vit_eval_def)
  define s' where "s' = (adjust_beams 2 (s1\<lparr>n_hmm_eval := n_hmm_eval s1 + 2\<rparr>))\<lparr>bestscore := b\<rparr>"
  from hmm_eval_loop_sched [OF loop] have sch: "same_sched s s1" .
  have lt1: "lextree s1 = lextree s"
    using loop by (auto simp: act fr f2 f0 Let_def)
  have lt': "lextree (adjust_beams 2 (s1\<lparr>n_hmm_eval := n_hmm_eval s1 + 2\<rparr>)) = Some demo_lextree"
    using lt lt1 by (simp add: adjust_beams_def Let_def)
  have run: "fsg_search_hmm_eval s = Inr s'"
    using loop lt' act
    by (simp add: fsg_search_hmm_eval_def Let_def s'_def demo_lextree_def)
  have sch': "same_sched s s'"
    using hmm_eval_sched [OF run] .
  from hmm_eval_loop_count [OF loop] cap have cap': "maxhmmpf s' = 1"
    by (simp add: s'_def adjust_beams_def Let_def)
  have "crowd s'"
    using sch' assms cap' lt' unfolding crowd_def same_sched_def
    by (simp add: s'_def)
  moreover from hmm_eval_adjusts [OF _ run] act cap
  have "beam_factor s' = reduce_factor (beam_factor s)"
    by (simp add: reduce_factor_def)
  ultimately show ?thesis using run by blast
qed

lemma crowd_eval_frames:
  "crowd s \<Longrightarrow>
     \<exists>s'. eval_frames k s = Inr s' \<and> crowd s' \<and>
          beam_factor s' = reduce_frames k (beam_factor s)"
proof (induction k arbitrary: s)
  case 0
  then show ?case by simp
next
  case (Suc k)
  from crowd_hmm_eval [OF Suc.prems] obtain s1 where
    one: "fsg_search_hmm_eval s = Inr s1" "crowd s1"
      "beam_factor s1 = reduce_factor (beam_factor s)"
    by blast
  from Suc.IH [OF one(2)] one(1,3) show ?case by simp
qed

lemma reduce_factor_steps:
  "reduce_factor (Float32 1 (0)) = Float32 15099494 (- 24)"
  "reduce_factor (Float32 15099494 (- 24)) = Float32 13589544 (- 24)"
  "reduce_factor (Float32 13589544 (- 24)) = Float32 12230589 (- 24)"
  "reduce_factor (Float32 12230589 (- 24)) = Float32 11007530 (- 24)"
  "reduce_factor (Float32 11007530 (- 24)) = Float32 9906777 (- 24)"
  "reduce_factor (Float32 9906777 (- 24)) = Float32 8916099 (- 24)"
  "reduce_factor (Float32 8916099 (- 24)) = Float32 16048978 (- 25)"
  "reduce_factor (Float32 16048978 (- 25)) = Float32 14444080 (- 25)"
  "reduce_factor (Float32 14444080 (- 25)) = Float32 12999672 (- 25)"
  "reduce_factor (Float32 12999672 (- 25)) = Float32 11699704 (- 25)"
  "reduce_factor (Float32 11699704 (- 25)) = Float32 10529733 (- 25)"
  "reduce_factor (Float32 10529733 (- 25)) = Float32 9476759 (- 25)"
  "reduce_factor (Float32 9476759 (- 25)) = Float32 8529083 (- 25)"
  "reduce_factor (Float32 8529083 (- 25)) = Float32 15352349 (- 26)"
  "reduce_factor (Float32 15352349 (- 26)) = Float32 13817114 (- 26)"
  "reduce_factor (Float32 13817114 (- 26)) = Float32 12435402 (- 26)"
  "reduce_factor (Float32 12435402 (- 26)) = Float32 11191862 (- 26)"
  "reduce_factor (Float32 11191862 (- 26)) = Float32 10072676 (- 26)"
  "reduce_factor (Float32 10072676 (- 26)) = Float32 9065408 (- 26)"
  "reduce_factor (Float32 9065408 (- 26)) = Float32 16317734 (- 27)"
  "reduce_factor (Float32 16317734 (- 27)) = Float32 14685960 (- 27)"
  "reduce_factor (Float32 14685960 (- 27)) = Float32 13217364 (- 27)"
  by (simp_all add: reduce_factor_def f32_eval)

lemma reduce_factor_floor:
  "reduce_factor (Float32 13217364 (- 27)) = Float32 13217364 (- 27)"
  by (simp add: reduce_factor_def f32_eval)

lemma reduce_22: "reduce_frames 22 f32_one = Float32 13217364 (- 27)"
  by (simp only: eval_nat_numeral BitM.simps reduce_frames.simps f32_one_def reduce_factor_steps)


text \<open>
  C2, as stated: from the beam factor \<open>1.0\<close>, 22 frames over the cap in a row leave
  the beam factor \<open>13217364 * 2 ^ (-27)\<close>, about \<open>0.0985\<close>, which is below one tenth.
\<close>

theorem beam_factor_below_floor:
  "beam_factor crowded = f32_one \<and>
   map_sum id beam_factor (eval_frames 22 crowded) = Inr (Float32 13217364 (- 27)) \<and>
   f32_below_tenth (Float32 13217364 (- 27))"
proof -
  have "beam_factor crowded = f32_one"
    by (simp add: crowded_def after_start_eq demo_idle_def idle_search_def f32_one_def)
  moreover from crowd_eval_frames [OF crowd_crowded, of 22] this
  have "map_sum id beam_factor (eval_frames 22 crowded) = Inr (Float32 13217364 (- 27))"
    by (auto simp: reduce_22)
  moreover have "f32_below_tenth (Float32 13217364 (- 27))"
    by (simp add: f32_below_tenth_def)
  ultimately show ?thesis by blast
qed

theorem hmm_eval_beams_witness:
  "pnode_active crowded \<noteq> [] \<and> maxhmmpf crowded = 1 \<and> length (pnode_active crowded) = 2 \<and>
   f32_gt_0_1 (beam_factor crowded) \<and>
   map_sum id (\<lambda>s. (beam_factor s, beam s, pbeam s, wbeam s)) (fsg_search_hmm_eval crowded)
     = Inr (Float32 15099494 (- 24), - 900, - 900, - 900)"
proof -
  from crowd_hmm_eval [OF crowd_crowded] obtain s' where
    run: "fsg_search_hmm_eval crowded = Inr s'"
    by blast
  have c: "pnode_active crowded = [2, 0]" "maxhmmpf crowded = 1"
    "beam_factor crowded = Float32 1 0" "beam_orig crowded = - 1000"
    "pbeam_orig crowded = - 1000" "wbeam_orig crowded = - 1000"
    by (simp_all add: crowded_def after_start_eq demo_idle_def idle_search_def f32_one_def)
  have gt: "f32_gt_0_1 (Float32 1 0)"
    by (simp add: f32_gt_0_1_def f64_0_1_def dyadic_less_def)
  have mul: "f32_mul (Float32 1 0) f32_0_9 = Float32 15099494 (- 24)"
    by (simp add: f32_eval)
  have sc: "scale_beam (- 1000) (Float32 15099494 (- 24)) = - 900"
    by (simp add: f32_eval)
  from hmm_eval_beams [OF _ run] c gt mul sc run show ?thesis
    by simp
qed

end
